theory Spec2Isabelle
  imports Main "HOL-Library.Sublist"
begin

section \<open>Python's regular expressions, as far as the scripts use them\<close>

text \<open>
  The renaming scripts of the repository are sequences of \<^verbatim>\<open>re.sub(pattern, repl, code)\<close>
  calls. The patterns are embedded as values of the datatype \<open>regex\<close>, one constructor per
  construct of the pattern language the scripts use, and matched by a backtracking matcher
  that returns every way a pattern can match at a position, in the order in which
  Python's matcher tries them (greedy repetition first, the left alternative first).
  The first element of that list is the match Python reports.

  Text is a list of 8-bit characters, and the character classes \<^verbatim>\<open>\w\<close> and \<^verbatim>\<open>\s\<close> are
  those of ASCII text, which is what the scripts are run on (a C source file).
\<close>

type_synonym char_range = "char \<times> char"

datatype regex =
    Lit string                      \<comment> \<open>literal text\<close>
  | Cls bool "char_range list"      \<comment> \<open>a character class; the flag is True for a negated class\<close>
  | WordB                           \<comment> \<open>\<^verbatim>\<open>\b\<close>\<close>
  | Bol                             \<comment> \<open>\<^verbatim>\<open>^\<close> (no MULTILINE flag)\<close>
  | Seq regex regex
  | Alt regex regex
  | Opt regex                       \<comment> \<open>greedy \<^verbatim>\<open>?\<close>\<close>
  | Star regex                      \<comment> \<open>greedy \<^verbatim>\<open>*\<close>\<close>
  | Plus regex                      \<comment> \<open>greedy \<^verbatim>\<open>+\<close>\<close>
  | Group nat regex                 \<comment> \<open>a capturing group and its number\<close>
  | NegLook regex                   \<comment> \<open>\<^verbatim>\<open>(?!...)\<close>\<close>
  | PosLook regex                   \<comment> \<open>\<^verbatim>\<open>(?=...)\<close>\<close>

text \<open>The state of a match in progress: the character before the current position
  (None at the start of the text), the text from the current position on, and the groups
  captured so far, the latest first.\<close>

record mstate =
  prev :: "char option"
  rest :: string
  caps :: "(nat \<times> string) list"

definition in_ranges :: "char_range list \<Rightarrow> char \<Rightarrow> bool" where
  "in_ranges rs c =
     list_ex (\<lambda>(lo, hi). (of_char lo :: nat) \<le> of_char c \<and> (of_char c :: nat) \<le> of_char hi) rs"

text \<open>The same comparison of two character codes, bit by bit from the most significant
  bit; it is what the evaluation of a class on a concrete character uses.\<close>

fun bits_le :: "bool list \<Rightarrow> bool list \<Rightarrow> bool" where
  "bits_le (a # as) (b # bs) = (if a = b then bits_le as bs else b)"
| "bits_le _ _ = True"

fun char_le :: "char \<Rightarrow> char \<Rightarrow> bool" where
  "char_le (Char a0 a1 a2 a3 a4 a5 a6 a7) (Char b0 b1 b2 b3 b4 b5 b6 b7) =
     bits_le [a7, a6, a5, a4, a3, a2, a1, a0] [b7, b6, b5, b4, b3, b2, b1, b0]"

fun bits_val :: "bool list \<Rightarrow> nat" where
  "bits_val [] = 0"
| "bits_val (a # as) = of_bool a * 2 ^ length as + bits_val as"

definition word_ranges :: "char_range list" where
  "word_ranges =
     [(CHR ''a'', CHR ''z''), (CHR ''A'', CHR ''Z''), (CHR ''0'', CHR ''9''), (CHR ''_'', CHR ''_'')]"

definition space_ranges :: "char_range list" where
  "space_ranges = [(CHR 0x09, CHR 0x0D), (CHR 0x1C, CHR 0x20)]"

definition is_word :: "char \<Rightarrow> bool" where
  "is_word c = in_ranges word_ranges c"

definition word_opt :: "char option \<Rightarrow> bool" where
  "word_opt x = (case x of None \<Rightarrow> False | Some c \<Rightarrow> is_word c)"

definition next_char :: "string \<Rightarrow> char option" where
  "next_char s = (case s of [] \<Rightarrow> None | c # _ \<Rightarrow> Some c)"

text \<open>Greedy repetition: one more round of the body first, then stopping here. A round
  that consumes nothing is not repeated.\<close>

fun star_iter :: "(mstate \<Rightarrow> mstate list) \<Rightarrow> nat \<Rightarrow> mstate \<Rightarrow> mstate list" where
  "star_iter f 0 st = [st]"
| "star_iter f (Suc n) st =
     concat (map (star_iter f n)
       (filter (\<lambda>st'. length (rest st') < length (rest st)) (f st))) @ [st]"

primrec matches :: "regex \<Rightarrow> mstate \<Rightarrow> mstate list" where
  "matches (Lit l) st =
     (if prefix l (rest st)
      then [st\<lparr>prev := (if l = [] then prev st else Some (last l)),
               rest := drop (length l) (rest st)\<rparr>]
      else [])"
| "matches (Cls neg rs) st =
     (case rest st of
        [] \<Rightarrow> []
      | c # cs \<Rightarrow> if in_ranges rs c \<noteq> neg then [st\<lparr>prev := Some c, rest := cs\<rparr>] else [])"
| "matches WordB st =
     (if word_opt (prev st) \<noteq> word_opt (next_char (rest st)) then [st] else [])"
| "matches Bol st = (if prev st = None then [st] else [])"
| "matches (Seq a b) st = concat (map (matches b) (matches a st))"
| "matches (Alt a b) st = matches a st @ matches b st"
| "matches (Opt a) st = matches a st @ [st]"
| "matches (Star a) st = star_iter (matches a) (length (rest st)) st"
| "matches (Plus a) st =
     concat (map (\<lambda>st'. star_iter (matches a) (length (rest st')) st') (matches a st))"
| "matches (Group k a) st =
     map (\<lambda>st'. st'\<lparr>caps := (k, take (length (rest st) - length (rest st')) (rest st)) # caps st'\<rparr>)
       (matches a st)"
| "matches (NegLook a) st = (if matches a st = [] then [st] else [])"
| "matches (PosLook a) st = (if matches a st = [] then [] else [st])"

text \<open>A replacement template: literal text and group references \<^verbatim>\<open>\1\<close>.\<close>

datatype titem = TLit string | TGrp nat

definition group_text :: "(nat \<times> string) list \<Rightarrow> nat \<Rightarrow> string" where
  "group_text cs k = (case map_of cs k of None \<Rightarrow> [] | Some g \<Rightarrow> g)"

fun expand :: "titem list \<Rightarrow> (nat \<times> string) list \<Rightarrow> string" where
  "expand [] cs = []"
| "expand (TLit l # t) cs = l @ expand t cs"
| "expand (TGrp k # t) cs = group_text cs k @ expand t cs"

text \<open>
  \<^verbatim>\<open>re.sub(r, t, s)\<close>: the text is scanned from the left; where the pattern matches, the
  expanded template is emitted and the scan goes on behind the match, otherwise one character
  is copied. The counter of \<open>sub_scan\<close> is the number of characters of the current match that
  are still to be skipped. (No pattern of the scripts matches the empty text; an empty match
  emits the template and copies the character.)
\<close>

fun sub_scan :: "regex \<Rightarrow> titem list \<Rightarrow> nat \<Rightarrow> char option \<Rightarrow> string \<Rightarrow> string" where
  "sub_scan r t k p [] = []"
| "sub_scan r t (Suc k) p (c # cs) = sub_scan r t k (Some c) cs"
| "sub_scan r t 0 p (c # cs) =
     (case matches r \<lparr>prev = p, rest = c # cs, caps = []\<rparr> of
        [] \<Rightarrow> c # sub_scan r t 0 (Some c) cs
      | m # _ \<Rightarrow>
          (let n = length (c # cs) - length (rest m) in
           if n = 0 then expand t (caps m) @ c # sub_scan r t 0 (Some c) cs
           else expand t (caps m) @ sub_scan r t (n - 1) (Some c) cs))"

definition re_sub :: "regex \<Rightarrow> titem list \<Rightarrow> string \<Rightarrow> string" where
  "re_sub r t s = sub_scan r t 0 None s"

text \<open>A rule is a pattern with its replacement; a list of rules is applied in order, each
  to the result of the one before (the chain of \<^verbatim>\<open>code = re.sub(..., code)\<close> statements, or the
  loop of \<^verbatim>\<open>apply_transformations\<close> over a dict, which Python iterates in insertion order).\<close>

type_synonym rule = "regex \<times> titem list"

definition apply_rules :: "rule list \<Rightarrow> string \<Rightarrow> string" where
  "apply_rules rs code = fold (\<lambda>(r, t) c. re_sub r t c) rs code"

text \<open>The pattern pieces the scripts use again and again.\<close>

definition w :: regex where  \<comment> \<open>\<^verbatim>\<open>\w\<close>\<close>
  "w = Cls False word_ranges"

definition ws :: regex where  \<comment> \<open>\<^verbatim>\<open>\s\<close>\<close>
  "ws = Cls False space_ranges"

definition seqs :: "regex list \<Rightarrow> regex" where
  "seqs rs = foldr Seq rs (Lit [])"

definition alts :: "string list \<Rightarrow> regex" where  \<comment> \<open>\<^verbatim>\<open>a|b|c\<close> of literals\<close>
  "alts ls = foldr (\<lambda>l r. Alt (Lit l) r) (butlast ls) (Lit (last ls))"

section \<open>The rule shapes of the scripts\<close>



definition field_arrow :: "string \<Rightarrow> string \<Rightarrow> rule" where
  \<comment> \<open>\<^verbatim>\<open>re.sub(r'->k\b', '->v', code)\<close>\<close>
  "field_arrow k v = (seqs [Lit (''->'' @ k), WordB], [TLit (''->'' @ v)])"

definition field_dot :: "string \<Rightarrow> string \<Rightarrow> rule" where
  \<comment> \<open>\<^verbatim>\<open>re.sub(r'\.k\b', '.v', code)\<close>\<close>
  "field_dot k v = (seqs [Lit (''.'' @ k), WordB], [TLit (''.'' @ v)])"

definition field_arrow_unless :: "string \<Rightarrow> string list \<Rightarrow> string \<Rightarrow> rule" where
  \<comment> \<open>\<^verbatim>\<open>re.sub(r'->k\b(?!x|y|z)', '->v', code)\<close>\<close>
  "field_arrow_unless k exc v =
     (seqs [Lit (''->'' @ k), WordB, NegLook (alts exc)], [TLit (''->'' @ v)])"

definition field_dot_unless :: "string \<Rightarrow> string list \<Rightarrow> string \<Rightarrow> rule" where
  \<comment> \<open>\<^verbatim>\<open>re.sub(r'\.k\b(?!x|y|z)', '.v', code)\<close>\<close>
  "field_dot_unless k exc v =
     (seqs [Lit (''.'' @ k), WordB, NegLook (alts exc)], [TLit (''.'' @ v)])"

definition owned_field :: "string \<Rightarrow> string \<Rightarrow> string \<Rightarrow> rule" where
  \<comment> \<open>\<^verbatim>\<open>re.sub(r'(\w+)OPk\b(?!\w)', r'\1OPv', ...)\<close> with OP one of \<^verbatim>\<open>->\<close> and \<^verbatim>\<open>\.\<close>\<close>
  "owned_field opr k v =
     (seqs [Group 1 (Plus w), Lit (opr @ k), WordB, NegLook w], [TGrp 1, TLit (opr @ v)])"

section \<open>fix_bigint_fields.py\<close>

text \<open>The eight substitutions the script applies to one line, in its order:
  \<^verbatim>\<open>line = re.sub(r'(\w+)->d\b(?!\w)', r'\1->digits', line)\<close> and so on.\<close>

definition bigint_rules :: "rule list" where
  \<open>bigint_rules =
    [owned_field ''->'' ''d'' ''digits'',
     owned_field ''->'' ''n'' ''count'',
     owned_field ''->'' ''c'' ''capacity'',
     owned_field ''->'' ''s'' ''is_negative'',
     owned_field ''.'' ''d'' ''digits'',
     owned_field ''.'' ''n'' ''count'',
     owned_field ''.'' ''c'' ''capacity'',
     owned_field ''.'' ''s'' ''is_negative'']\<close>

definition fix_bigint_line :: "string \<Rightarrow> string" where
  "fix_bigint_line line = apply_rules bigint_rules line"

text \<open>The script opens the file with \<^verbatim>\<open>open('ada83.c', 'r')\<close>, in text mode with the default
  \<^verbatim>\<open>newline=None\<close>. Reading then translates every line end of the file to a line feed:
  a carriage return with the line feed after it, and a carriage return alone, are both read
  as one line feed.\<close>

fun universal_newlines :: "string \<Rightarrow> string" where
  "universal_newlines [] = []"
| "universal_newlines [c] = (if c = CHR 0x0D then [CHR ''\<newline>''] else [c])"
| "universal_newlines (c # d # cs) =
     (if c = CHR 0x0D \<and> d = CHR ''\<newline>'' then CHR ''\<newline>'' # universal_newlines cs
      else if c = CHR 0x0D then CHR ''\<newline>'' # universal_newlines (d # cs)
      else c # universal_newlines (d # cs))"

text \<open>The lines of a text that has been read: each with its line feed; the last line may
  have none.\<close>

fun lines_of :: "string \<Rightarrow> string list" where
  "lines_of [] = []"
| "lines_of (c # cs) =
     (if c = CHR ''\<newline>'' then [c] # lines_of cs
      else (case lines_of cs of [] \<Rightarrow> [[c]] | l # ls \<Rightarrow> (c # l) # ls))"

text \<open>\<^verbatim>\<open>f.readlines()\<close> on the file opened in this way: the lines of the translated text.\<close>

definition readlines :: "string \<Rightarrow> string list" where
  "readlines file = lines_of (universal_newlines file)"

definition start_line :: nat where "start_line = 73"
definition end_line :: nat where "end_line = 307"

text \<open>\<^verbatim>\<open>for i in range(start_line, min(end_line, len(lines))): lines[i] = ...\<close>\<close>

definition fix_bigint_lines :: "string list \<Rightarrow> string list" where
  "fix_bigint_lines lines =
     fold (\<lambda>i ls. ls[i := fix_bigint_line (ls ! i)])
       [start_line ..< min end_line (length lines)] lines"

text \<open>The script: read the lines of the file, rewrite the range, and write them back with
  \<^verbatim>\<open>f.writelines(lines)\<close> to the file opened with \<^verbatim>\<open>open('ada83.c', 'w')\<close>. The argument is the
  content of the file before the run and the result its content after it. Writing in text
  mode puts the line separator of the platform for every line feed; the model is of a
  platform where that separator is the line feed itself (Linux, macOS), so the lines are
  written as they stand.\<close>

definition fix_bigint_fields :: "string \<Rightarrow> string" where
  "fix_bigint_fields file = concat (fix_bigint_lines (readlines file))"

section \<open>fix_string_slice_fields.py\<close>

text \<open>The script reads the file, applies seven substitutions that name the variable in front
  of the dot (\<^verbatim>\<open>re.sub(r'(\ba\.)n\b', r'\1length', code)\<close> ...), and writes the result.\<close>

definition string_slice_rules :: "rule list" where
  \<open>string_slice_rules =
    [(seqs [Group 1 (seqs [WordB, Lit ''a.'']), Lit ''n'', WordB], [TGrp 1, TLit ''length'']),
     (seqs [Group 1 (seqs [WordB, Lit ''b.'']), Lit ''n'', WordB], [TGrp 1, TLit ''length'']),
     (seqs [Group 1 (seqs [WordB, Lit ''s.'']), Lit ''n'', WordB], [TGrp 1, TLit ''length'']),
     (seqs [Group 1 (seqs [WordB, Lit ''a.'']), Lit ''s'', WordB], [TGrp 1, TLit ''string'']),
     (seqs [Group 1 (seqs [WordB, Lit ''b.'']), Lit ''s'', WordB], [TGrp 1, TLit ''string'']),
     (seqs [Group 1 (seqs [WordB, Lit ''s.'']), Lit ''s'', WordB], [TGrp 1, TLit ''string'']),
     (seqs [Group 1 (Lit ''KW[i].''), Lit ''k'', WordB], [TGrp 1, TLit ''keyword''])]\<close>

definition fix_string_slice_fields :: "string \<Rightarrow> string" where
  "fix_string_slice_fields code = apply_rules string_slice_rules code"

section \<open>fix_source_location.py\<close>

definition source_location_rules :: "rule list" where
  \<open>source_location_rules =
    [(seqs [WordB, Lit ''lc.l'', WordB], [TLit ''lc.line'']),
     (seqs [WordB, Lit ''lc.c'', WordB], [TLit ''lc.column'']),
     (seqs [WordB, Lit ''lc.f'', WordB], [TLit ''lc.filename'']),
     (seqs [WordB, Lit ''l.l'', WordB], [TLit ''l.line'']),
     (seqs [WordB, Lit ''l.c'', WordB], [TLit ''l.column'']),
     (seqs [WordB, Lit ''l.f'', WordB], [TLit ''l.filename'']),
     (seqs [WordB, Lit ''loc.l'', WordB], [TLit ''loc.line'']),
     (seqs [WordB, Lit ''loc.c'', WordB], [TLit ''loc.column'']),
     (seqs [WordB, Lit ''loc.f'', WordB], [TLit ''loc.filename'']),
     (Lit ''KW[i].keyword.s'', [TLit ''KW[i].keyword.string'']),
     (seqs [Lit ''KW[i].t'', WordB], [TLit ''KW[i].token_kind''])]\<close>

definition fix_source_location :: "string \<Rightarrow> string" where
  "fix_source_location code = apply_rules source_location_rules code"

section \<open>fix_field_accesses.py\<close>

text \<open>\<^verbatim>\<open>fix_field_accesses(code)\<close>: the chain of substitutions, in the order of the source.\<close>

definition field_access_rules :: "rule list" where
  \<open>field_access_rules =
    [field_arrow ''d'' ''digits'',
     field_dot ''d'' ''digits'',
     field_arrow ''n'' ''count'',
     field_dot ''n'' ''count'',
     field_arrow ''c'' ''capacity'',
     field_dot ''c'' ''capacity'',
     field_arrow ''s'' ''is_negative'',
     field_dot ''s'' ''is_negative'',
     field_arrow ''lo'' ''low_bound'',
     field_dot ''lo'' ''low_bound'',
     field_arrow ''hi'' ''high_bound'',
     field_dot ''hi'' ''high_bound'',
     field_arrow ''m'' ''mutex'',
     field_dot ''m'' ''mutex'',
     field_arrow ''cnt'' ''count'',
     field_dot ''cnt'' ''count'',
     field_arrow ''mx'' ''maximum'',
     field_dot ''mx'' ''maximum'',
     field_arrow ''t'' ''thread'',
     field_dot ''t'' ''thread'',
     field_arrow ''q'' ''queue'',
     field_dot ''q'' ''queue'',
     field_arrow ''b'' ''base'',
     field_dot ''b'' ''base'',
     field_arrow ''p'' ''pointer'',
     field_dot ''p'' ''pointer'',
     field_arrow ''e'' ''end'',
     field_dot ''e'' ''end'',
     field_arrow ''s'' ''string'',
     field_arrow ''n'' ''length'',
     field_arrow ''l'' ''line'',
     field_dot ''l'' ''line'',
     field_arrow ''f'' ''filename'',
     field_dot ''f'' ''filename'',
     field_arrow ''iv'' ''integer_value'',
     field_dot ''iv'' ''integer_value'',
     field_arrow ''fv'' ''float_value'',
     field_dot ''fv'' ''float_value'',
     field_arrow ''ui'' ''unsigned_integer'',
     field_dot ''ui'' ''unsigned_integer'',
     field_arrow ''ur'' ''unsigned_rational'',
     field_dot ''ur'' ''unsigned_rational'',
     field_arrow ''lit'' ''literal'',
     field_dot ''lit'' ''literal'',
     field_arrow ''ln'' ''line_number'',
     field_dot ''ln'' ''line_number'',
     field_arrow ''cl'' ''column'',
     field_dot ''cl'' ''column'',
     field_arrow ''pt'' ''previous_token'',
     field_dot ''pt'' ''previous_token'',
     field_arrow ''nm'' ''name'',
     field_dot ''nm'' ''name'',
     field_arrow ''bb'' ''basic_block'',
     field_dot ''bb'' ''basic_block'',
     field_arrow ''pth'' ''path'',
     field_dot ''pth'' ''path'',
     field_arrow ''sp'' ''spec'',
     field_dot ''sp'' ''spec'',
     field_arrow ''bd'' ''body'',
     field_dot ''bd'' ''body'',
     field_arrow ''wth'' ''with_list'',
     field_dot ''wth'' ''with_list'',
     field_arrow ''elb'' ''elaborates'',
     field_dot ''elb'' ''elaborates'',
     field_arrow ''ts'' ''timestamp'',
     field_dot ''ts'' ''timestamp'',
     field_arrow ''cmpl'' ''complete'',
     field_dot ''cmpl'' ''complete'',
     field_arrow ''fp'' ''formal_parameters'',
     field_dot ''fp'' ''formal_parameters'',
     field_arrow ''dc'' ''declarations'',
     field_dot ''dc'' ''declarations'',
     field_arrow ''un'' ''unit'',
     field_dot ''un'' ''unit'',
     field_arrow ''ty'' ''type_info'',
     field_dot ''ty'' ''type_info'',
     field_dot ''er'' ''enum_rep'',
     field_dot ''ad'' ''address_clause'',
     field_dot ''rr'' ''record_rep'',
     field_dot ''im'' ''import_clause'',
     field_arrow ''po'' ''position'',
     field_dot ''po'' ''position'',
     field_arrow ''cp'' ''components'',
     field_dot ''cp'' ''components'',
     field_arrow ''lang'' ''language'',
     field_dot ''lang'' ''language'',
     field_arrow ''ext'' ''external_name'',
     field_dot ''ext'' ''external_name'',
     field_arrow ''lx'' ''lexer'',
     field_dot ''lx'' ''lexer'',
     field_arrow ''cr'' ''current_token'',
     field_dot ''cr'' ''current_token'',
     field_arrow ''pk'' ''peek_token'',
     field_dot ''pk'' ''peek_token'',
     field_arrow ''er'' ''error_count'',
     field_dot ''er'' ''error_count'',
     field_arrow ''lb'' ''label_stack'',
     field_dot ''lb'' ''label_stack'',
     field_arrow ''k'' ''kind'',
     field_dot ''k'' ''kind'']\<close>

definition fix_field_accesses :: "string \<Rightarrow> string" where
  "fix_field_accesses code = apply_rules field_access_rules code"

section \<open>apply_all_field_fixes.py\<close>

text \<open>\<^verbatim>\<open>apply_all_fixes(code)\<close> ("Apply all field access fixes in careful order to avoid
  conflicts") is one chain of substitutions; the groups below are the blocks the source
  separates by its comments, in the order of the source.\<close>

text \<open>Lines 15 to 24: Token fields.\<close>

definition fixes_token :: "rule list" where
  \<open>fixes_token =
    [field_dot ''ui'' ''unsigned_integer'',
     field_arrow ''ui'' ''unsigned_integer'',
     field_dot ''ur'' ''unsigned_rational'',
     field_arrow ''ur'' ''unsigned_rational'',
     field_dot ''iv'' ''integer_value'',
     field_arrow ''iv'' ''integer_value'',
     field_dot ''fv'' ''float_value'',
     field_arrow ''fv'' ''float_value'',
     field_dot ''lit'' ''literal'',
     field_arrow ''lit'' ''literal'']\<close>

text \<open>Lines 27 to 32: Lexer-specific before generic.\<close>

definition fixes_lexer :: "rule list" where
  \<open>fixes_lexer =
    [field_arrow ''ln'' ''line_number'',
     field_dot ''ln'' ''line_number'',
     field_arrow ''cl'' ''column'',
     field_dot ''cl'' ''column'',
     field_arrow ''pt'' ''previous_token'',
     field_dot ''pt'' ''previous_token'']\<close>

text \<open>Lines 35 to 44: Parser-specific.\<close>

definition fixes_parser :: "rule list" where
  \<open>fixes_parser =
    [field_arrow ''lx'' ''lexer'',
     field_dot ''lx'' ''lexer'',
     field_arrow ''cr'' ''current_token'',
     field_dot ''cr'' ''current_token'',
     field_arrow ''pk'' ''peek_token'',
     field_dot ''pk'' ''peek_token'',
     field_arrow ''er'' ''error_count'',
     field_dot ''er'' ''error_count'',
     field_arrow ''lb'' ''label_stack'',
     field_dot ''lb'' ''label_stack'']\<close>

text \<open>Lines 47 to 50: Array_Bounds.\<close>

definition fixes_array_bounds :: "rule list" where
  \<open>fixes_array_bounds =
    [field_arrow ''lo'' ''low_bound'',
     field_dot ''lo'' ''low_bound'',
     field_arrow ''hi'' ''high_bound'',
     field_dot ''hi'' ''high_bound'']\<close>

text \<open>Lines 53 to 56: Thread types.\<close>

definition fixes_thread_types :: "rule list" where
  \<open>fixes_thread_types =
    [field_arrow ''cnt'' ''count'',
     field_dot ''cnt'' ''count'',
     field_arrow ''mx'' ''maximum'',
     field_dot ''mx'' ''maximum'']\<close>

text \<open>Lines 59 to 72: LU struct.\<close>

definition fixes_lu :: "rule list" where
  \<open>fixes_lu =
    [field_arrow ''pth'' ''path'',
     field_dot ''pth'' ''path'',
     field_arrow ''sp'' ''spec'',
     field_dot ''sp'' ''spec'',
     field_arrow ''bd'' ''body'',
     field_dot ''bd'' ''body'',
     field_arrow ''wth'' ''with_list'',
     field_dot ''wth'' ''with_list'',
     field_arrow ''elb'' ''elaborates'',
     field_dot ''elb'' ''elaborates'',
     field_arrow ''ts'' ''timestamp'',
     field_dot ''ts'' ''timestamp'',
     field_arrow ''cmpl'' ''complete'',
     field_dot ''cmpl'' ''complete'']\<close>

text \<open>Lines 75 to 80: GT struct.\<close>

definition fixes_gt :: "rule list" where
  \<open>fixes_gt =
    [field_arrow ''fp'' ''formal_parameters'',
     field_dot ''fp'' ''formal_parameters'',
     field_arrow ''dc'' ''declarations'',
     field_dot ''dc'' ''declarations'',
     field_arrow ''un'' ''unit'',
     field_dot ''un'' ''unit'']\<close>

text \<open>Lines 83 to 92: RC nested struct fields.\<close>

definition fixes_rc :: "rule list" where
  \<open>fixes_rc =
    [field_dot ''er'' ''enum_rep'',
     field_dot ''ad'' ''address_clause'',
     field_dot ''rr'' ''record_rep'',
     field_dot ''im'' ''import_clause'',
     field_arrow ''po'' ''position'',
     field_dot ''po'' ''position'',
     field_arrow ''cp'' ''components'',
     field_dot ''cp'' ''components'',
     field_arrow ''lang'' ''language'',
     field_dot ''lang'' ''language'']\<close>

text \<open>Lines 98 to 111: k, nm, bb, ty.\<close>

definition fixes_generic :: "rule list" where
  \<open>fixes_generic =
    [field_arrow ''k'' ''kind'',
     field_dot ''k'' ''kind'',
     field_arrow ''nm'' ''name'',
     field_dot ''nm'' ''name'',
     field_arrow ''bb'' ''basic_block'',
     field_dot ''bb'' ''basic_block'',
     field_arrow ''ty'' ''type_info'',
     field_dot ''ty'' ''type_info'']\<close>

text \<open>Lines 116 to 118: Token.location.line and its siblings.\<close>

definition fixes_location_chain :: "rule list" where
  \<open>fixes_location_chain =
    [(seqs [Group 1 (Plus w), Lit ''.l.l'', WordB], [TGrp 1, TLit ''.location.line'']),
     (seqs [Group 1 (Plus w), Lit ''.l.c'', WordB], [TGrp 1, TLit ''.location.column'']),
     (seqs [Group 1 (Plus w), Lit ''.l.f'', WordB], [TGrp 1, TLit ''.location.filename''])]\<close>

text \<open>Lines 121 to 130: standalone l, f, t.\<close>

definition fixes_standalone :: "rule list" where
  \<open>fixes_standalone =
    [field_arrow_unless ''l'' [''ocation'', ''ine'', ''ength'', ''abel'', ''anguage''] ''location'',
     field_dot_unless ''l'' [''ocation'', ''ine'', ''ength'', ''abel'', ''anguage''] ''location'',
     field_arrow_unless ''f'' [''ile'', ''loat'', ''ormal''] ''filename'',
     field_dot_unless ''f'' [''ile'', ''loat'', ''ormal''] ''filename'',
     field_arrow_unless ''t'' [''ype'', ''ime'', ''hread'', ''oken''] ''kind'',
     field_dot_unless ''t'' [''ype'', ''ime'', ''hread'', ''oken''] ''kind'']\<close>

text \<open>Lines 134 to 134: s.\<close>

definition fixes_slice :: "rule list" where
  \<open>fixes_slice =
    [field_arrow_unless ''s'' [''t'', ''pec'', ''tring'', ''ize'', ''cope''] ''string'']\<close>

text \<open>Lines 138 to 143: n, c, d.\<close>

definition fixes_vector :: "rule list" where
  \<open>fixes_vector =
    [field_arrow_unless ''n'' [''ame'', ''ext'', ''ot''] ''count'',
     field_dot_unless ''n'' [''ame'', ''ext'', ''ot''] ''count'',
     field_arrow_unless ''c'' [''o'', ''u'', ''a''] ''capacity'',
     field_dot_unless ''c'' [''o'', ''u'', ''a''] ''capacity'',
     field_arrow_unless ''d'' [''a'', ''e'', ''i''] ''data'',
     field_dot_unless ''d'' [''a'', ''e'', ''i''] ''data'']\<close>

text \<open>Lines 146 to 151: Arena fields.\<close>

definition fixes_arena :: "rule list" where
  \<open>fixes_arena =
    [field_arrow_unless ''b'' [''a'', ''o'', ''y''] ''base'',
     field_dot_unless ''b'' [''a'', ''o'', ''y''] ''base'',
     field_arrow_unless ''p'' [''a'', ''o'', ''r''] ''pointer'',
     field_dot_unless ''p'' [''a'', ''o'', ''r''] ''pointer'',
     field_arrow_unless ''e'' [''n'', ''l'', ''r'', ''x''] ''end'',
     field_dot_unless ''e'' [''n'', ''l'', ''r'', ''x''] ''end'']\<close>

text \<open>Lines 154 to 157: Thread fields.\<close>

definition fixes_thread :: "rule list" where
  \<open>fixes_thread =
    [field_arrow_unless ''m'' [''a'', ''u'', ''o''] ''mutex'',
     field_dot_unless ''m'' [''a'', ''u'', ''o''] ''mutex'',
     field_arrow_unless ''q'' [''u''] ''queue'',
     field_dot_unless ''q'' [''u''] ''queue'']\<close>

definition apply_all_fixes :: "string \<Rightarrow> string" where
  "apply_all_fixes code =
     apply_rules
       (fixes_token
        @ fixes_lexer
        @ fixes_parser
        @ fixes_array_bounds
        @ fixes_thread_types
        @ fixes_lu
        @ fixes_gt
        @ fixes_rc
        @ fixes_generic
        @ fixes_location_chain
        @ fixes_standalone
        @ fixes_slice
        @ fixes_vector
        @ fixes_arena
        @ fixes_thread) code"

section \<open>complete_expansion.py\<close>

text \<open>The step of \<^verbatim>\<open>expand_all\<close> that renames the arena type (lines 53 to 59 of the source):
  the struct definition, then \<^verbatim>\<open>code = re.sub(r'\bA\b(?!\w)', 'Arena_Allocator', code)\<close>,
  "Replace standalone A".\<close>

definition arena_rules :: "rule list" where
  \<open>arena_rules =
    [(seqs [Lit ''typedef struct'', Star ws, Lit ''{'', Star ws, Lit ''char *b, *p, *e;'', Star ws, Lit ''} A;''], [TLit (''typedef struct'' @ [CHR 0x0A] @ ''{'' @ [CHR 0x0A] @ ''  char *base, *pointer, *end;'' @ [CHR 0x0A] @ ''} Arena_Allocator;'')]),
     (seqs [WordB, Lit ''A'', WordB, NegLook w], [TLit ''Arena_Allocator''])]\<close>

definition expand_arena :: "string \<Rightarrow> string" where
  "expand_arena code = apply_rules arena_rules code"

section \<open>reformat.py\<close>





definition boolean_operator_rules :: "rule list" where
  \<open>boolean_operator_rules =
    [(Lit ''&&'', [TLit '' and '']),
     (Lit ''||'', [TLit '' or '']),
     (seqs [Lit ''!'', Star ws, Group 1 (Cls False [(CHR ''a'', CHR ''z''), (CHR ''A'', CHR ''Z''), (CHR ''_'', CHR ''_'')])], [TLit ''not '', TGrp 1]),
     (seqs [Lit ''!'', Star ws, Lit ''(''], [TLit ''not (''])]\<close>

definition replace_boolean_operators :: "string \<Rightarrow> string" where
  "replace_boolean_operators code = apply_rules boolean_operator_rules code"









section \<open>The literal patch scripts\<close>




















section \<open>Notions used in the proofs\<close>

text \<open>A list of lines as \<^verbatim>\<open>readlines\<close> returns it: no line is empty, a line feed stands at the
  end of a line only, and every line but the last ends with one.\<close>

fun line_list :: "string list \<Rightarrow> bool" where
  "line_list [] = True"
| "line_list [l] = (l \<noteq> [] \<and> CHR ''\<newline>'' \<notin> set (butlast l))"
| "line_list (l # m # ls) =
     (l \<noteq> [] \<and> last l = CHR ''\<newline>'' \<and> CHR ''\<newline>'' \<notin> set (butlast l)
      \<and> line_list (m # ls))"



text \<open>\<open>rewritten A s s'\<close>: the text \<open>s'\<close> is \<open>s\<close> with some disjoint pieces replaced,
  each piece and its replacement being a pair of \<open>A\<close>; every other character is copied.\<close>

inductive rewritten :: "(string \<times> string) set \<Rightarrow> string \<Rightarrow> string \<Rightarrow> bool"
  for A :: "(string \<times> string) set" where
  rw_end: "rewritten A [] []"
| rw_copy: "rewritten A xs ys \<Longrightarrow> rewritten A (c # xs) (c # ys)"
| rw_subst: "(old, new) \<in> A \<Longrightarrow> rewritten A xs ys \<Longrightarrow> rewritten A (old @ xs) (new @ ys)"

text \<open>The text a match consumed, and the pairs of matched text and replacement a rule can
  produce.\<close>

definition consumed :: "mstate \<Rightarrow> mstate \<Rightarrow> string" where
  "consumed st st' = take (length (rest st) - length (rest st')) (rest st)"

definition match_pairs :: "regex \<Rightarrow> titem list \<Rightarrow> (string \<times> string) set" where
  "match_pairs r t = {(consumed st m, expand t (caps m)) | st m. m \<in> set (matches r st)}"

text \<open>The matched texts of the substitutions of \<^verbatim>\<open>replace_boolean_operators\<close> and of the
  arena step of \<^verbatim>\<open>expand_all\<close>, each with its replacement.\<close>

definition letter_ranges :: "char_range list" where
  "letter_ranges = [(CHR ''a'', CHR ''z''), (CHR ''A'', CHR ''Z''), (CHR ''_'', CHR ''_'')]"

definition and_pairs :: "(string \<times> string) set" where
  "and_pairs = {(''&&'', '' and '')}"

definition or_pairs :: "(string \<times> string) set" where
  "or_pairs = {(''||'', '' or '')}"

definition not_letter_pairs :: "(string \<times> string) set" where
  "not_letter_pairs =
     {(''!'' @ sp @ [c], ''not '' @ [c]) | sp c.
        (\<forall>x \<in> set sp. in_ranges space_ranges x) \<and> in_ranges letter_ranges c}"

definition not_paren_pairs :: "(string \<times> string) set" where
  "not_paren_pairs =
     {(''!'' @ sp @ ''('', ''not ('') | sp. \<forall>x \<in> set sp. in_ranges space_ranges x}"

definition arena_struct_pairs :: "(string \<times> string) set" where
  "arena_struct_pairs =
     {(''typedef struct'' @ s1 @ ''{'' @ s2 @ ''char *b, *p, *e;'' @ s3 @ ''} A;'',
       ''typedef struct'' @ [CHR 0x0A] @ ''{'' @ [CHR 0x0A] @ ''  char *base, *pointer, *end;''
         @ [CHR 0x0A] @ ''} Arena_Allocator;'') | s1 s2 s3.
        \<forall>x \<in> set (s1 @ s2 @ s3). in_ranges space_ranges x}"

definition arena_name_pairs :: "(string \<times> string) set" where
  "arena_name_pairs = {(''A'', ''Arena_Allocator'')}"

text \<open>Two shapes of pattern: one that starts with literal text whose first character is not
  a word character (\<^verbatim>\<open>->k\b\<close>, \<^verbatim>\<open>\.k\b\<close>), and one that starts with the group \<^verbatim>\<open>(\w+)\<close> followed by
  such literal text. \<open>passes r s\<close> holds when, by its shape, \<open>r\<close> cannot match inside an
  ident that is followed by the text \<open>s\<close>.\<close>

definition lit_led :: "regex \<Rightarrow> bool" where
  "lit_led r = (case r of Seq (Lit l) r' \<Rightarrow> l \<noteq> [] \<and> \<not> is_word (hd l) | _ \<Rightarrow> False)"

definition owner_led :: "regex \<Rightarrow> string \<Rightarrow> bool" where
  "owner_led r s =
     (case r of
        Seq (Group k g) (Seq (Lit l) (Seq WordB r')) \<Rightarrow>
          g = Plus w \<and> l \<noteq> [] \<and> \<not> is_word (hd l)
          \<and> (s = [] \<or> \<not> is_word (hd s))
          \<and> (\<not> prefix l s \<or> is_word (last l) = word_opt (next_char (drop (length l) s)))
      | _ \<Rightarrow> False)"

definition passes :: "regex \<Rightarrow> string \<Rightarrow> bool" where
  "passes r s = (lit_led r \<or> owner_led r s)"

fun passes_all :: "rule list \<Rightarrow> string \<Rightarrow> bool" where
  "passes_all [] s = True"
| "passes_all ((r, t) # rs) s = (passes r s \<and> passes_all rs (re_sub r t s))"

definition ident :: "string \<Rightarrow> bool" where
  "ident b = list_all is_word b"

text \<open>The substitutions of \<^verbatim>\<open>apply_all_fixes\<close> with the block of the RC fields moved in front of
  the block of the Parser fields, and with the block of the standalone \<^verbatim>\<open>l\<close>, \<^verbatim>\<open>f\<close>, \<^verbatim>\<open>t\<close> moved
  in front of the block for \<^verbatim>\<open>.l.l\<close>: two other orders of the same blocks.\<close>

definition apply_all_fixes_rc_first :: "string \<Rightarrow> string" where
  "apply_all_fixes_rc_first code =
     apply_rules
       (fixes_token @ fixes_lexer @ fixes_rc @ fixes_parser @ fixes_array_bounds
        @ fixes_thread_types @ fixes_lu @ fixes_gt @ fixes_generic @ fixes_location_chain
        @ fixes_standalone @ fixes_slice @ fixes_vector @ fixes_arena @ fixes_thread) code"

definition apply_all_fixes_standalone_first :: "string \<Rightarrow> string" where
  "apply_all_fixes_standalone_first code =
     apply_rules
       (fixes_token @ fixes_lexer @ fixes_parser @ fixes_array_bounds @ fixes_thread_types
        @ fixes_lu @ fixes_gt @ fixes_rc @ fixes_generic @ fixes_standalone
        @ fixes_location_chain @ fixes_slice @ fixes_vector @ fixes_arena @ fixes_thread) code"

section \<open>Properties\<close>

subsection \<open>Character classes\<close>

lemma bits_val_less: "bits_val as < 2 ^ length as"
  by (induction as) (auto simp: of_bool_def)

lemma bits_le_iff:
  "length as = length bs \<Longrightarrow> bits_le as bs \<longleftrightarrow> bits_val as \<le> bits_val bs"
proof (induction as bs rule: list_induct2)
  case Nil
  then show ?case by simp
next
  case (Cons a as b bs)
  have la: "bits_val as < 2 ^ length bs" using bits_val_less[of as] Cons.hyps by simp
  have lb: "bits_val bs < 2 ^ length bs" using bits_val_less[of bs] by simp
  show ?case using Cons la lb by (cases a; cases b) auto
qed

lemma of_char_bits:
  "(of_char (Char a0 a1 a2 a3 a4 a5 a6 a7) :: nat) = bits_val [a7, a6, a5, a4, a3, a2, a1, a0]"
  by (simp add: of_bool_def)

lemma char_le_iff: "char_le a b \<longleftrightarrow> (of_char a :: nat) \<le> of_char b"
  by (cases a; cases b) (simp only: char_le.simps of_char_bits bits_le_iff length_Cons list.size)

lemma in_ranges_code [code]:
  "in_ranges rs c = list_ex (\<lambda>(lo, hi). char_le lo c \<and> char_le c hi) rs"
  by (simp add: in_ranges_def char_le_iff)

subsection \<open>Reading lines\<close>

lemma concat_lines_of: "concat (lines_of s) = s"
  by (induction s) (auto split: list.splits)

lemma concat_readlines: "concat (readlines file) = universal_newlines file"
  by (simp add: readlines_def concat_lines_of)

lemma line_list_push:
  "line_list (l # ls) \<Longrightarrow> c \<noteq> CHR ''\<newline>'' \<Longrightarrow> line_list ((c # l) # ls)"
  by (cases ls) auto

lemma line_list_newline: "line_list ls \<Longrightarrow> line_list ([CHR ''\<newline>''] # ls)"
  by (cases ls) auto

lemma line_list_lines_of: "line_list (lines_of s)"
proof (induction s)
  case Nil
  show ?case by simp
next
  case (Cons c cs)
  show ?case
  proof (cases "c = CHR ''\<newline>''")
    case True
    with Cons show ?thesis by (simp add: line_list_newline)
  next
    case False
    show ?thesis
    proof (cases "lines_of cs")
      case Nil
      with False show ?thesis by simp
    next
      case (Cons l ls)
      with False Cons.IH show ?thesis by (simp add: line_list_push)
    qed
  qed
qed

lemma lines_of_line:
  "CHR ''\<newline>'' \<notin> set l \<Longrightarrow>
   lines_of (l @ CHR ''\<newline>'' # s) = (l @ [CHR ''\<newline>'']) # lines_of s"
  by (induction l) auto

lemma lines_of_replicate:
  "CHR ''\<newline>'' \<notin> set l \<Longrightarrow>
   lines_of (concat (replicate n (l @ [CHR ''\<newline>'']))) = replicate n (l @ [CHR ''\<newline>''])"
  by (induction n) (simp_all add: lines_of_line)

lemma universal_newlines_no_cr: "CHR 0x0D \<notin> set (universal_newlines s)"
  by (induction s rule: universal_newlines.induct) auto

lemma universal_newlines_id: "CHR 0x0D \<notin> set s \<Longrightarrow> universal_newlines s = s"
  by (induction s rule: universal_newlines.induct) auto

subsection \<open>The loop over a range of line numbers\<close>

lemma fold_update_range:
  "a \<le> b \<Longrightarrow> b \<le> length ls \<Longrightarrow>
   fold (\<lambda>i ls. ls[i := f (ls ! i)]) [a ..< b] ls =
     take a ls @ map f (take (b - a) (drop a ls)) @ drop b ls"
proof (induction "b - a" arbitrary: a ls)
  case 0
  then show ?case by simp
next
  case (Suc n)
  then have ab: "a < b" and n: "n = b - Suc a" by auto
  have len: "b \<le> length (ls[a := f (ls ! a)])" using Suc.prems by simp
  have sab: "Suc a \<le> b" using ab by simp
  have "fold (\<lambda>i ls. ls[i := f (ls ! i)]) [a ..< b] ls =
        fold (\<lambda>i ls. ls[i := f (ls ! i)]) [Suc a ..< b] (ls[a := f (ls ! a)])"
    using ab by (simp add: upt_conv_Cons)
  also have "\<dots> = take (Suc a) (ls[a := f (ls ! a)])
        @ map f (take (b - Suc a) (drop (Suc a) (ls[a := f (ls ! a)])))
        @ drop b (ls[a := f (ls ! a)])"
    using Suc.hyps(1)[OF n sab len] .
  also have "\<dots> = take a ls @ map f (take (b - a) (drop a ls)) @ drop b ls"
  proof -
    have a_len: "a < length ls" using ab Suc.prems by simp
    have t: "take (Suc a) (ls[a := f (ls ! a)]) = take a ls @ [f (ls ! a)]"
      using a_len by (simp add: take_Suc_conv_app_nth)
    have d: "drop (Suc a) (ls[a := f (ls ! a)]) = drop (Suc a) ls" by simp
    have d2: "drop b (ls[a := f (ls ! a)]) = drop b ls" using ab by simp
    have m: "take (b - a) (drop a ls) = ls ! a # take (b - Suc a) (drop (Suc a) ls)"
    proof -
      have "drop a ls = ls ! a # drop (Suc a) ls"
        using a_len by (simp add: Cons_nth_drop_Suc)
      moreover have "b - a = Suc (b - Suc a)" using ab by simp
      ultimately show ?thesis by simp
    qed
    show ?thesis by (simp add: t d d2 m)
  qed
  finally show ?case .
qed

lemma fix_bigint_lines_eq:
  "fix_bigint_lines ls =
     take 73 ls @ map fix_bigint_line (take 234 (drop 73 ls)) @ drop 307 ls"
proof (cases "length ls \<le> 73")
  case True
  then show ?thesis by (simp add: fix_bigint_lines_def start_line_def end_line_def)
next
  case False
  let ?b = "min 307 (length ls)"
  have b: "?b \<le> length ls" by simp
  have a: "73 \<le> ?b" using False by simp
  have "fix_bigint_lines ls =
      take 73 ls @ map fix_bigint_line (take (?b - 73) (drop 73 ls)) @ drop ?b ls"
    unfolding fix_bigint_lines_def start_line_def end_line_def
    by (rule fold_update_range[OF a b])
  moreover have "take (?b - 73) (drop 73 ls) = take 234 (drop 73 ls)"
    by (cases "307 \<le> length ls") (simp_all add: min_def)
  moreover have "drop ?b ls = drop 307 ls"
    by (cases "307 \<le> length ls") (simp_all add: min_def)
  ultimately show ?thesis by simp
qed

text \<open>
  C8. The bigint script reads and writes the file in text mode, and its lines are the lines
  of the text so read: a carriage return with its line feed, and a carriage return alone,
  are read as one line feed, and no carriage return is written back. With these lines
  numbered from 1, the file it writes is: the first 73 lines as read, then lines 74 to 307
  each passed through the eight substitutions, then every line from 308 on as read; the
  three parts as read, put together, are the text read. For a file without a carriage
  return the text read is the file itself, so that every line before line 74 and after
  line 307 is written back unchanged.
\<close>

theorem C8_bigint_line_range_frame:
  "fix_bigint_fields file =
     concat (take 73 (readlines file))
     @ concat (map fix_bigint_line (take 234 (drop 73 (readlines file))))
     @ concat (drop 307 (readlines file))
   \<and> universal_newlines file =
     concat (take 73 (readlines file))
     @ concat (take 234 (drop 73 (readlines file)))
     @ concat (drop 307 (readlines file))
   \<and> line_list (readlines file)
   \<and> CHR 0x0D \<notin> set (universal_newlines file)
   \<and> (CHR 0x0D \<notin> set file \<longrightarrow> universal_newlines file = file)"
proof (intro conjI)
  show "fix_bigint_fields file =
     concat (take 73 (readlines file))
     @ concat (map fix_bigint_line (take 234 (drop 73 (readlines file))))
     @ concat (drop 307 (readlines file))"
    by (simp add: fix_bigint_fields_def fix_bigint_lines_eq)
next
  let ?ls = "readlines file"
  have "take 234 (drop 73 ?ls) @ drop 307 ?ls = drop 73 ?ls"
  proof -
    have "drop 307 ?ls = drop 234 (drop 73 ?ls)" by simp
    then show ?thesis by (metis append_take_drop_id)
  qed
  then have "take 73 ?ls @ take 234 (drop 73 ?ls) @ drop 307 ?ls = ?ls"
    by simp
  then have "concat (take 73 ?ls @ take 234 (drop 73 ?ls) @ drop 307 ?ls)
      = universal_newlines file"
    by (simp only: concat_readlines)
  then show "universal_newlines file =
     concat (take 73 ?ls) @ concat (take 234 (drop 73 ?ls)) @ concat (drop 307 ?ls)"
    by simp
next
  show "line_list (readlines file)"
    by (simp add: readlines_def line_list_lines_of)
next
  show "CHR 0x0D \<notin> set (universal_newlines file)"
    by (rule universal_newlines_no_cr)
next
  show "CHR 0x0D \<notin> set file \<longrightarrow> universal_newlines file = file"
    by (simp add: universal_newlines_id)
qed

text \<open>A file of 308 lines \<^verbatim>\<open>p.n\<close> without a carriage return: lines 74 to 307 are rewritten,
  the 73 lines before them and the line after them are written back as they were.\<close>

theorem C8_bigint_line_range_witness:
  "CHR 0x0D \<notin> set (concat (replicate 308 (''p.n'' @ [CHR ''\<newline>''])))
   \<and> fix_bigint_fields (concat (replicate 308 (''p.n'' @ [CHR ''\<newline>''])))
     = concat (replicate 73 (''p.n'' @ [CHR ''\<newline>'']))
       @ concat (replicate 234 (''p.count'' @ [CHR ''\<newline>'']))
       @ ''p.n'' @ [CHR ''\<newline>'']"
proof -
  let ?file = "concat (replicate 308 (''p.n'' @ [CHR ''\<newline>'']))"
  have nocr: "CHR 0x0D \<notin> set ?file" by simp
  have ls: "lines_of ?file = replicate 308 (''p.n'' @ [CHR ''\<newline>''])"
    by (rule lines_of_replicate) simp
  have line: "fix_bigint_line (''p.n'' @ [CHR ''\<newline>'']) = ''p.count'' @ [CHR ''\<newline>'']"
    by code_simp
  from C8_bigint_line_range_frame[of ?file] nocr
  have same: "universal_newlines ?file = ?file"
    and out: "fix_bigint_fields ?file =
      concat (take 73 (readlines ?file))
      @ concat (map fix_bigint_line (take 234 (drop 73 (readlines ?file))))
      @ concat (drop 307 (readlines ?file))"
    by blast+
  have r: "readlines ?file = replicate 308 (''p.n'' @ [CHR ''\<newline>''])"
    unfolding readlines_def same by (rule ls)
  have "fix_bigint_fields ?file =
      concat (replicate 73 (''p.n'' @ [CHR ''\<newline>'']))
      @ concat (replicate 234 (fix_bigint_line (''p.n'' @ [CHR ''\<newline>''])))
      @ concat (replicate 1 (''p.n'' @ [CHR ''\<newline>'']))"
    unfolding out r by simp
  then show ?thesis unfolding line using nocr by simp
qed

text \<open>A file of two lines whose first line ends with a carriage return and a line feed:
  both lines stand before line 74, and the first is written back without its carriage
  return. And a file of 73 carriage returns with \<^verbatim>\<open>p.n\<close> behind them: the script counts 73
  lines in front of \<^verbatim>\<open>p.n\<close>, rewrites it, and writes a line feed for every carriage
  return.\<close>

theorem C8_line_range_frame_counterexample:
  "fix_bigint_fields (''a = 1;'' @ [CHR 0x0D, CHR ''\<newline>''] @ ''b = 2;'')
     = ''a = 1;'' @ [CHR ''\<newline>''] @ ''b = 2;''
   \<and> fix_bigint_fields (''a = 1;'' @ [CHR 0x0D, CHR ''\<newline>''] @ ''b = 2;'')
     \<noteq> ''a = 1;'' @ [CHR 0x0D, CHR ''\<newline>''] @ ''b = 2;''
   \<and> fix_bigint_fields (replicate 73 (CHR 0x0D) @ ''p.n'')
     = replicate 73 (CHR ''\<newline>'') @ ''p.count''"
  by code_simp


subsection \<open>The literal patch scripts\<close>

















subsection \<open>Splitting and joining lines\<close>








subsection \<open>The loop of add_spacing\<close>













subsection \<open>What a match consumes\<close>

lemma star_iter_suffix:
  assumes f: "\<And>st st'. st' \<in> set (f st) \<Longrightarrow> suffix (rest st') (rest st)"
  shows "st' \<in> set (star_iter f n st) \<Longrightarrow> suffix (rest st') (rest st)"
proof (induction n arbitrary: st)
  case 0
  then show ?case by simp
next
  case (Suc n)
  from Suc.prems consider "st' = st"
    | st1 where "st1 \<in> set (f st)" "st' \<in> set (star_iter f n st1)"
    by auto
  then show ?case
  proof cases
    case 1
    then show ?thesis by simp
  next
    case 2
    then show ?thesis using Suc.IH f suffix_order.trans by blast
  qed
qed

lemma matches_suffix: "st' \<in> set (matches r st) \<Longrightarrow> suffix (rest st') (rest st)"
proof (induction r arbitrary: st st')
  case (Lit l)
  then show ?case by (auto simp: suffix_drop split: if_splits)
next
  case (Cls neg rs)
  then show ?case
    by (cases "rest st") (auto intro: suffix_ConsI split: if_splits)
next
  case WordB
  then show ?case by (auto split: if_splits)
next
  case Bol
  then show ?case by (auto split: if_splits)
next
  case (Seq a b)
  then show ?case using suffix_order.trans by fastforce
next
  case (Alt a b)
  then show ?case by auto
next
  case (Opt a)
  then show ?case by auto
next
  case (Star a)
  then show ?case using star_iter_suffix[of "matches a"] by auto
next
  case (Plus a)
  from Plus.prems obtain st1 where 1: "st1 \<in> set (matches a st)"
    and 2: "st' \<in> set (star_iter (matches a) (length (rest st1)) st1)" by auto
  from 2 have "suffix (rest st') (rest st1)"
    using star_iter_suffix[of "matches a"] Plus.IH by blast
  with 1 Plus.IH show ?case using suffix_order.trans by blast
next
  case (Group k a)
  then show ?case by auto
next
  case (NegLook a)
  then show ?case by (auto split: if_splits)
next
  case (PosLook a)
  then show ?case by (auto split: if_splits)
qed

lemma consumed_split:
  "st' \<in> set (matches r st) \<Longrightarrow> rest st = consumed st st' @ rest st'"
proof -
  assume "st' \<in> set (matches r st)"
  from matches_suffix[OF this] obtain u where u: "rest st = u @ rest st'"
    by (auto simp: suffix_def)
  then show ?thesis by (simp add: consumed_def)
qed

subsection \<open>The scan of re.sub\<close>

lemma sub_scan_skip_all: "length s \<le> k \<Longrightarrow> sub_scan r t k p s = []"
  by (induction r t k p s rule: sub_scan.induct) auto

lemma sub_scan_skip:
  "k < length s \<Longrightarrow> sub_scan r t (Suc k) p s = sub_scan r t 0 (Some (s ! k)) (drop (Suc k) s)"
proof (induction k arbitrary: s p)
  case 0
  then show ?case by (cases s) auto
next
  case (Suc k)
  then show ?case by (cases s) auto
qed

lemma sub_scan_rewrites: "rewritten (match_pairs r t) s (sub_scan r t 0 p s)"
proof (induction "length s" arbitrary: s p rule: less_induct)
  case less
  show ?case
  proof (cases s)
    case Nil
    then show ?thesis by (simp add: rw_end)
  next
    case (Cons c cs)
    let ?st = "\<lparr>prev = p, rest = c # cs, caps = []\<rparr>"
    show ?thesis
    proof (cases "matches r ?st")
      case Nil
      have "rewritten (match_pairs r t) cs (sub_scan r t 0 (Some c) cs)"
        using less[of cs] Cons by simp
      with Nil Cons show ?thesis by (simp add: rw_copy)
    next
      case (Cons m ms)
      then have m: "m \<in> set (matches r ?st)" by simp
      have pair: "(consumed ?st m, expand t (caps m)) \<in> match_pairs r t"
        using m unfolding match_pairs_def by blast
      have split: "c # cs = consumed ?st m @ rest m"
        using consumed_split[OF m] by simp
      let ?n = "length (c # cs) - length (rest m)"
      show ?thesis
      proof (cases "?n = 0")
        case True
        then have e: "consumed ?st m = []" by (simp add: consumed_def)
        have tl: "rewritten (match_pairs r t) (c # cs) (c # sub_scan r t 0 (Some c) cs)"
          using less[of cs] \<open>s = c # cs\<close> by (simp add: rw_copy)
        have "rewritten (match_pairs r t) ([] @ c # cs)
                (expand t (caps m) @ c # sub_scan r t 0 (Some c) cs)"
          using pair tl unfolding e by (rule rw_subst)
        with True Cons \<open>s = c # cs\<close> show ?thesis by (simp add: Let_def)
      next
        case False
        then obtain k where k: "?n = Suc k" by (cases ?n) auto
        have len: "length (rest m) \<le> length cs"
          using k by simp
        have cons: "consumed ?st m = take (Suc k) (c # cs)"
          using k by (simp add: consumed_def)
        have restm: "rest m = drop (Suc k) (c # cs)"
          using split cons by (metis append_eq_conv_conj append_take_drop_id)
        have out: "sub_scan r t 0 p s = expand t (caps m) @ sub_scan r t k (Some c) cs"
          using Cons \<open>s = c # cs\<close> k by (simp add: Let_def)
        have tail: "\<exists>q. sub_scan r t k (Some c) cs = sub_scan r t 0 q (rest m)"
        proof (cases k)
          case 0
          with restm show ?thesis by auto
        next
          case (Suc j)
          show ?thesis
          proof (cases "j < length cs")
            case True
            then show ?thesis using sub_scan_skip[of j cs r t "Some c"] restm Suc by auto
          next
            case False
            then have "sub_scan r t k (Some c) cs = []" "rest m = []"
              using Suc restm by (simp_all add: sub_scan_skip_all)
            then show ?thesis by (metis sub_scan.simps(1))
          qed
        qed
        then obtain q where q: "sub_scan r t k (Some c) cs = sub_scan r t 0 q (rest m)" ..
        have "length (rest m) < length s" using len \<open>s = c # cs\<close> by simp
        then have "rewritten (match_pairs r t) (rest m) (sub_scan r t 0 q (rest m))"
          by (rule less)
        with pair have "rewritten (match_pairs r t) (consumed ?st m @ rest m)
            (expand t (caps m) @ sub_scan r t 0 q (rest m))"
          by (rule rw_subst)
        then show ?thesis using out q split \<open>s = c # cs\<close> by simp
      qed
    qed
  qed
qed

lemma rewrites_mono: "rewritten A s s' \<Longrightarrow> A \<subseteq> B \<Longrightarrow> rewritten B s s'"
  by (induction rule: rewritten.induct) (auto intro: rewritten.intros)

lemma re_sub_rewrites: "match_pairs r t \<subseteq> A \<Longrightarrow> rewritten A s (re_sub r t s)"
  unfolding re_sub_def by (rule rewrites_mono[OF sub_scan_rewrites])

subsection \<open>Sequences and repetition\<close>

lemma matches_seqs_Nil [simp]: "matches (seqs []) st = [st]"
  by (simp add: seqs_def)

lemma matches_seqs_Cons [simp]:
  "matches (seqs (r # rs)) st = concat (map (matches (seqs rs)) (matches r st))"
  by (simp add: seqs_def)

lemma consumed_eq: "rest st = u @ rest m \<Longrightarrow> consumed st m = u"
  by (simp add: consumed_def)

lemma matches_Lit_elem:
  "m \<in> set (matches (Lit l) st) \<Longrightarrow> rest st = l @ rest m \<and> caps m = caps st"
  by (auto simp: prefix_def split: if_splits)

lemma matches_Cls_elem:
  "m \<in> set (matches (Cls neg rs) st) \<Longrightarrow>
   \<exists>c. rest st = c # rest m \<and> in_ranges rs c \<noteq> neg \<and> caps m = caps st"
  by (cases "rest st") (auto split: if_splits)

lemma star_iter_Suc_elem:
  "m \<in> set (star_iter f (Suc n) st) \<Longrightarrow>
   m = st \<or> (\<exists>st1 \<in> set (f st). m \<in> set (star_iter f n st1))"
  by auto

lemma star_cls_elem:
  "m \<in> set (star_iter (matches (Cls neg rs)) n st) \<Longrightarrow>
   \<exists>u. rest st = u @ rest m \<and> (\<forall>x \<in> set u. in_ranges rs x \<noteq> neg) \<and> caps m = caps st"
proof (induction n arbitrary: st)
  case 0
  then show ?case by simp
next
  case (Suc n)
  from star_iter_Suc_elem[OF Suc.prems] consider "m = st"
    | st1 where "st1 \<in> set (matches (Cls neg rs) st)"
        "m \<in> set (star_iter (matches (Cls neg rs)) n st1)"
    by blast
  then show ?case
  proof cases
    case 1
    then show ?thesis by simp
  next
    case 2
    from matches_Cls_elem[OF 2(1)] obtain c where
      c: "rest st = c # rest st1" "in_ranges rs c \<noteq> neg" "caps st1 = caps st" by blast
    from Suc.IH[OF 2(2)] obtain u where
      u: "rest st1 = u @ rest m" "\<forall>x \<in> set u. in_ranges rs x \<noteq> neg" "caps m = caps st1" by blast
    have "rest st = (c # u) @ rest m" using c u by simp
    moreover have "\<forall>x \<in> set (c # u). in_ranges rs x \<noteq> neg" using c u by simp
    ultimately show ?thesis using c u by metis
  qed
qed

subsection \<open>The four substitutions of replace_boolean_operators\<close>

lemma pairs_Lit: "match_pairs (Lit l) [TLit v] \<subseteq> {(l, v)}"
proof
  fix x assume "x \<in> match_pairs (Lit l) [TLit v]"
  then obtain st m where x: "x = (consumed st m, expand [TLit v] (caps m))"
    and m: "m \<in> set (matches (Lit l) st)"
    unfolding match_pairs_def by blast
  from matches_Lit_elem[OF m] have "consumed st m = l" by (simp add: consumed_eq)
  with x show "x \<in> {(l, v)}" by simp
qed

lemma pairs_not_letter:
  "match_pairs (seqs [Lit ''!'', Star ws, Group 1 (Cls False letter_ranges)])
     [TLit ''not '', TGrp 1] \<subseteq> not_letter_pairs"
proof
  fix x
  assume "x \<in> match_pairs (seqs [Lit ''!'', Star ws, Group 1 (Cls False letter_ranges)])
     [TLit ''not '', TGrp 1]"
  then obtain st m where x: "x = (consumed st m, expand [TLit ''not '', TGrp 1] (caps m))"
    and m: "m \<in> set (matches (seqs [Lit ''!'', Star ws, Group 1 (Cls False letter_ranges)]) st)"
    unfolding match_pairs_def by blast
  from m obtain st1 st2 m' where
    1: "st1 \<in> set (matches (Lit ''!'') st)" and
    2: "st2 \<in> set (star_iter (matches (Cls False space_ranges)) (length (rest st1)) st1)" and
    3: "m' \<in> set (matches (Cls False letter_ranges) st2)" and
    4: "m = m'\<lparr>caps := (1, take (length (rest st2) - length (rest m')) (rest st2)) # caps m'\<rparr>"
    by (auto simp: ws_def)
  from matches_Lit_elem[OF 1] have r1: "rest st = ''!'' @ rest st1" by simp
  from star_cls_elem[OF 2] obtain sp where
    r2: "rest st1 = sp @ rest st2" and sp: "\<forall>x \<in> set sp. in_ranges space_ranges x" by auto
  from matches_Cls_elem[OF 3] obtain c where
    r3: "rest st2 = c # rest m'" and c: "in_ranges letter_ranges c" by auto
  have rm: "rest m = rest m'" using 4 by simp
  have cm: "group_text (caps m) 1 = [c]" using 4 r3 by (simp add: group_text_def)
  have "rest st = (''!'' @ sp @ [c]) @ rest m" using r1 r2 r3 rm by simp
  then have "consumed st m = ''!'' @ sp @ [c]" by (rule consumed_eq)
  with x cm have "x = (''!'' @ sp @ [c], ''not '' @ [c])" by simp
  with sp c show "x \<in> not_letter_pairs" unfolding not_letter_pairs_def by blast
qed

lemma pairs_not_paren:
  "match_pairs (seqs [Lit ''!'', Star ws, Lit ''(''])
     [TLit ''not (''] \<subseteq> not_paren_pairs"
proof
  fix x
  assume "x \<in> match_pairs (seqs [Lit ''!'', Star ws, Lit ''('']) [TLit ''not ('']"
  then obtain st m where x: "x = (consumed st m, expand [TLit ''not (''] (caps m))"
    and m: "m \<in> set (matches (seqs [Lit ''!'', Star ws, Lit ''(''])  st)"
    unfolding match_pairs_def by blast
  from m obtain st1 st2 where
    1: "st1 \<in> set (matches (Lit ''!'') st)" and
    2: "st2 \<in> set (star_iter (matches (Cls False space_ranges)) (length (rest st1)) st1)" and
    3: "m \<in> set (matches (Lit ''('') st2)"
    by (auto simp: ws_def)
  from matches_Lit_elem[OF 1] have r1: "rest st = ''!'' @ rest st1" by simp
  from star_cls_elem[OF 2] obtain sp where
    r2: "rest st1 = sp @ rest st2" and sp: "\<forall>x \<in> set sp. in_ranges space_ranges x" by auto
  from matches_Lit_elem[OF 3] have r3: "rest st2 = ''('' @ rest m" by simp
  have "rest st = (''!'' @ sp @ ''('') @ rest m" using r1 r2 r3 by simp
  then have "consumed st m = ''!'' @ sp @ ''(''" by (rule consumed_eq)
  with x have "x = (''!'' @ sp @ ''('', ''not ('')" by simp
  with sp show "x \<in> not_paren_pairs" unfolding not_paren_pairs_def by blast
qed

lemma matches_WordB_elem: "m \<in> set (matches WordB st) \<Longrightarrow> m = st"
  by (auto split: if_splits)

lemma matches_NegLook_elem: "m \<in> set (matches (NegLook r) st) \<Longrightarrow> m = st"
  by (auto split: if_splits)

lemma pairs_arena_struct:
  "match_pairs (fst (arena_rules ! 0)) (snd (arena_rules ! 0)) \<subseteq> arena_struct_pairs"
proof
  let ?r = "seqs [Lit ''typedef struct'', Star ws, Lit ''{'', Star ws, Lit ''char *b, *p, *e;'',
     Star ws, Lit ''} A;'']"
  let ?v = "''typedef struct'' @ [CHR 0x0A] @ ''{'' @ [CHR 0x0A] @ ''  char *base, *pointer, *end;''
         @ [CHR 0x0A] @ ''} Arena_Allocator;''"
  have r: "arena_rules ! 0 = (?r, [TLit ?v])" by (simp add: arena_rules_def)
  fix x
  assume "x \<in> match_pairs (fst (arena_rules ! 0)) (snd (arena_rules ! 0))"
  then obtain st m where x: "x = (consumed st m, expand [TLit ?v] (caps m))"
    and m: "m \<in> set (matches ?r st)"
    unfolding match_pairs_def r fst_conv snd_conv by blast
  from m obtain a1 a2 a3 a4 a5 a6 where
    1: "a1 \<in> set (matches (Lit ''typedef struct'') st)" and
    2: "a2 \<in> set (star_iter (matches (Cls False space_ranges)) (length (rest a1)) a1)" and
    3: "a3 \<in> set (matches (Lit ''{'') a2)" and
    4: "a4 \<in> set (star_iter (matches (Cls False space_ranges)) (length (rest a3)) a3)" and
    5: "a5 \<in> set (matches (Lit ''char *b, *p, *e;'') a4)" and
    6: "a6 \<in> set (star_iter (matches (Cls False space_ranges)) (length (rest a5)) a5)" and
    7: "m \<in> set (matches (Lit ''} A;'') a6)"
    by (auto simp: ws_def simp del: matches.simps(1))
  from matches_Lit_elem[OF 1] have r1: "rest st = ''typedef struct'' @ rest a1" by simp
  from star_cls_elem[OF 2] obtain s1 where
    r2: "rest a1 = s1 @ rest a2" and s1: "\<forall>x \<in> set s1. in_ranges space_ranges x" by auto
  from matches_Lit_elem[OF 3] have r3: "rest a2 = ''{'' @ rest a3" by simp
  from star_cls_elem[OF 4] obtain s2 where
    r4: "rest a3 = s2 @ rest a4" and s2: "\<forall>x \<in> set s2. in_ranges space_ranges x" by auto
  from matches_Lit_elem[OF 5] have r5: "rest a4 = ''char *b, *p, *e;'' @ rest a5" by simp
  from star_cls_elem[OF 6] obtain s3 where
    r6: "rest a5 = s3 @ rest a6" and s3: "\<forall>x \<in> set s3. in_ranges space_ranges x" by auto
  from matches_Lit_elem[OF 7] have r7: "rest a6 = ''} A;'' @ rest m" by simp
  have "rest st =
      (''typedef struct'' @ s1 @ ''{'' @ s2 @ ''char *b, *p, *e;'' @ s3 @ ''} A;'') @ rest m"
    using r1 r2 r3 r4 r5 r6 r7 by simp
  then have "consumed st m =
      ''typedef struct'' @ s1 @ ''{'' @ s2 @ ''char *b, *p, *e;'' @ s3 @ ''} A;''"
    by (rule consumed_eq)
  with x have "x = (''typedef struct'' @ s1 @ ''{'' @ s2 @ ''char *b, *p, *e;'' @ s3 @ ''} A;'', ?v)"
    by simp
  moreover have "\<forall>x \<in> set (s1 @ s2 @ s3). in_ranges space_ranges x"
    using s1 s2 s3 by auto
  ultimately show "x \<in> arena_struct_pairs" unfolding arena_struct_pairs_def by blast
qed

lemma pairs_arena_name:
  "match_pairs (fst (arena_rules ! 1)) (snd (arena_rules ! 1)) \<subseteq> arena_name_pairs"
proof
  let ?r = "seqs [WordB, Lit ''A'', WordB, NegLook w]"
  have r: "arena_rules ! 1 = (?r, [TLit ''Arena_Allocator''])" by (simp add: arena_rules_def)
  fix x
  assume "x \<in> match_pairs (fst (arena_rules ! 1)) (snd (arena_rules ! 1))"
  then obtain st m where x: "x = (consumed st m, expand [TLit ''Arena_Allocator''] (caps m))"
    and m: "m \<in> set (matches ?r st)"
    unfolding match_pairs_def r fst_conv snd_conv by blast
  from m obtain a1 a2 a3 where
    1: "a1 \<in> set (matches WordB st)" and
    2: "a2 \<in> set (matches (Lit ''A'') a1)" and
    3: "a3 \<in> set (matches WordB a2)" and
    4: "m \<in> set (matches (NegLook w) a3)"
    by (auto simp del: matches.simps)
  from matches_WordB_elem[OF 1] matches_Lit_elem[OF 2] matches_WordB_elem[OF 3]
    matches_NegLook_elem[OF 4]
  have "rest st = ''A'' @ rest m" by simp
  then have "consumed st m = ''A''" by (rule consumed_eq)
  with x show "x \<in> arena_name_pairs" by (simp add: arena_name_pairs_def)
qed

lemma apply_rules_snoc: "apply_rules (rs @ [(r, t)]) s = re_sub r t (apply_rules rs s)"
  by (simp add: apply_rules_def)

text \<open>
  C1. Every character of the output of a substitution pass is copied from the pass's input
  or belongs to the replacement put in place of one matched occurrence of the pass's
  pattern: \<^verbatim>\<open> and \<close> for \<^verbatim>\<open>&&\<close>, \<^verbatim>\<open> or \<close> for \<^verbatim>\<open>||\<close>, \<^verbatim>\<open>not \<close> and the letter for \<^verbatim>\<open>!\<close>, optional
  white space and a letter, \<^verbatim>\<open>not (\<close> for \<^verbatim>\<open>!\<close>, optional white space and a parenthesis; the
  expanded struct definition and \<^verbatim>\<open>Arena_Allocator\<close> for \<^verbatim>\<open>A\<close> in the arena step. The patterns are
  matched by spelling alone, wherever they occur.
\<close>

theorem C1_boolean_operators_copy_or_replace:
  "rewritten and_pairs code (apply_rules (take 1 boolean_operator_rules) code)
 \<and> rewritten or_pairs (apply_rules (take 1 boolean_operator_rules) code)
      (apply_rules (take 2 boolean_operator_rules) code)
 \<and> rewritten not_letter_pairs (apply_rules (take 2 boolean_operator_rules) code)
      (apply_rules (take 3 boolean_operator_rules) code)
 \<and> rewritten not_paren_pairs (apply_rules (take 3 boolean_operator_rules) code)
      (replace_boolean_operators code)
 \<and> rewritten arena_struct_pairs code (apply_rules (take 1 arena_rules) code)
 \<and> rewritten arena_name_pairs (apply_rules (take 1 arena_rules) code) (expand_arena code)"
proof -
  let ?r1 = "(Lit ''&&'', [TLit '' and ''])"
  let ?r2 = "(Lit ''||'', [TLit '' or ''])"
  let ?r3 = "(seqs [Lit ''!'', Star ws, Group 1 (Cls False letter_ranges)], [TLit ''not '', TGrp 1])"
  let ?r4 = "(seqs [Lit ''!'', Star ws, Lit ''(''], [TLit ''not (''])"
  have rules: "boolean_operator_rules = [?r1, ?r2, ?r3, ?r4]"
    by (simp add: boolean_operator_rules_def letter_ranges_def)
  have t1: "apply_rules (take 1 boolean_operator_rules) code = re_sub (Lit ''&&'') [TLit '' and ''] code"
    by (simp add: rules apply_rules_def)
  have t2: "apply_rules (take 2 boolean_operator_rules) code =
      re_sub (Lit ''||'') [TLit '' or ''] (apply_rules (take 1 boolean_operator_rules) code)"
    by (simp add: rules apply_rules_def)
  have t3: "apply_rules (take 3 boolean_operator_rules) code =
      re_sub (fst ?r3) (snd ?r3) (apply_rules (take 2 boolean_operator_rules) code)"
    by (simp add: rules apply_rules_def)
  have t4: "replace_boolean_operators code =
      re_sub (fst ?r4) (snd ?r4) (apply_rules (take 3 boolean_operator_rules) code)"
    by (simp add: replace_boolean_operators_def rules apply_rules_def)
  have 1: "rewritten and_pairs code (apply_rules (take 1 boolean_operator_rules) code)"
    unfolding t1 and_pairs_def by (rule re_sub_rewrites[OF pairs_Lit])
  have 2: "rewritten or_pairs (apply_rules (take 1 boolean_operator_rules) code)
      (apply_rules (take 2 boolean_operator_rules) code)"
    unfolding t2 or_pairs_def by (rule re_sub_rewrites[OF pairs_Lit])
  have 3: "rewritten not_letter_pairs (apply_rules (take 2 boolean_operator_rules) code)
      (apply_rules (take 3 boolean_operator_rules) code)"
    unfolding t3 fst_conv snd_conv by (rule re_sub_rewrites[OF pairs_not_letter])
  have 4: "rewritten not_paren_pairs (apply_rules (take 3 boolean_operator_rules) code)
      (replace_boolean_operators code)"
    unfolding t4 fst_conv snd_conv by (rule re_sub_rewrites[OF pairs_not_paren])
  have a: "arena_rules = [arena_rules ! 0, arena_rules ! 1]"
    by (simp add: arena_rules_def)
  have t5: "apply_rules (take 1 arena_rules) code =
      re_sub (fst (arena_rules ! 0)) (snd (arena_rules ! 0)) code"
    by (subst a) (simp add: apply_rules_def split_beta)
  have t6: "expand_arena code =
      re_sub (fst (arena_rules ! 1)) (snd (arena_rules ! 1)) (apply_rules (take 1 arena_rules) code)"
    unfolding t5 expand_arena_def by (subst a) (simp add: apply_rules_def split_beta)
  have 5: "rewritten arena_struct_pairs code (apply_rules (take 1 arena_rules) code)"
    unfolding t5 by (rule re_sub_rewrites[OF pairs_arena_struct])
  have 6: "rewritten arena_name_pairs (apply_rules (take 1 arena_rules) code) (expand_arena code)"
    unfolding t6 by (rule re_sub_rewrites[OF pairs_arena_name])
  from 1 2 3 4 5 6 show ?thesis by blast
qed

theorem C1_copy_or_replace_witness:
  "rewritten and_pairs ''a&&!b'' ''a and !b''
 \<and> rewritten or_pairs ''a and !b'' ''a and !b''
 \<and> rewritten not_letter_pairs ''a and !b'' ''a and not b''
 \<and> rewritten not_paren_pairs ''a and not b'' ''a and not b''
 \<and> rewritten arena_struct_pairs ''A a;'' ''A a;''
 \<and> rewritten arena_name_pairs ''A a;'' ''Arena_Allocator a;''"
proof -
  have e: "apply_rules (take 1 boolean_operator_rules) ''a&&!b'' = ''a and !b''"
    "apply_rules (take 2 boolean_operator_rules) ''a&&!b'' = ''a and !b''"
    "apply_rules (take 3 boolean_operator_rules) ''a&&!b'' = ''a and not b''"
    "replace_boolean_operators ''a&&!b'' = ''a and not b''"
    by code_simp+
  have f: "apply_rules (take 1 arena_rules) ''A a;'' = ''A a;''"
    "expand_arena ''A a;'' = ''Arena_Allocator a;''"
    by code_simp+
  from C1_boolean_operators_copy_or_replace[of "''a&&!b''"]
    C1_boolean_operators_copy_or_replace[of "''A a;''"]
  show ?thesis unfolding e f by blast
qed

text \<open>The substitutions do reach into string literals and comments.\<close>

theorem C1_conservativeness_counterexample:
  \<open>replace_boolean_operators ''s = "a&&b"; /* c||!d */'' = ''s = "a and b"; /* c or not d */''
 \<and> expand_arena ''/* A */ "A"'' = ''/* Arena_Allocator */ "Arena_Allocator"''\<close>
  by code_simp

subsection \<open>Patterns that cannot match inside an ident\<close>

lemma lit_led_no_match:
  assumes "lit_led r" "is_word c"
  shows "matches r \<lparr>prev = p, rest = c # u, caps = cs\<rparr> = []"
proof -
  from assms(1) obtain l r' where r: "r = Seq (Lit l) r'" and l: "l \<noteq> []" "\<not> is_word (hd l)"
    by (auto simp: lit_led_def split: regex.splits)
  from l assms(2) have "\<not> prefix l (c # u)"
    by (cases l) auto
  with r show ?thesis by simp
qed

lemma lit_led_blind:
  assumes "lit_led r"
  shows "matches r \<lparr>prev = p, rest = s, caps = cs\<rparr> = matches r \<lparr>prev = q, rest = s, caps = cs\<rparr>"
proof -
  from assms obtain l r' where r: "r = Seq (Lit l) r'" and l: "l \<noteq> []"
    by (auto simp: lit_led_def split: regex.splits)
  show ?thesis unfolding r using l by simp
qed

lemma word_prefix_split:
  assumes "xs @ ys = b @ s" "\<forall>x \<in> set xs. is_word x" "s = [] \<or> \<not> is_word (hd s)"
  shows "\<exists>b2. b = xs @ b2 \<and> ys = b2 @ s"
proof -
  from assms(1) consider us where "xs = b @ us" "us @ ys = s"
    | us where "xs @ us = b" "ys = us @ s"
    by (auto simp: append_eq_append_conv2)
  then show ?thesis
  proof cases
    case 1
    have "us = []"
    proof (rule ccontr)
      assume "us \<noteq> []"
      then obtain x us' where us: "us = x # us'" by (cases us) auto
      with 1 have "hd s = x" "s \<noteq> []" by auto
      moreover have "is_word x" using assms(2) 1(1) us by simp
      ultimately show False using assms(3) by simp
    qed
    with 1 show ?thesis by simp
  next
    case 2
    then show ?thesis by auto
  qed
qed

lemma matches_Seq_elem:
  "m \<in> set (matches (Seq a b) st) \<Longrightarrow> \<exists>st1 \<in> set (matches a st). m \<in> set (matches b st1)"
  by auto

lemma matches_Seq_empty:
  "(\<And>m. m \<in> set (matches a st) \<Longrightarrow> matches b m = []) \<Longrightarrow> matches (Seq a b) st = []"
  by simp

lemma matches_Plus_elem:
  "m \<in> set (matches (Plus a) st) \<Longrightarrow>
   \<exists>st1 \<in> set (matches a st). m \<in> set (star_iter (matches a) (length (rest st1)) st1)"
  by auto

lemma matches_Group_elem:
  "m \<in> set (matches (Group k a) st) \<Longrightarrow> \<exists>m' \<in> set (matches a st). rest m = rest m'"
  by auto

lemma plus_word_elem:
  assumes "m \<in> set (matches (Plus w) st)" "rest st = b @ s" "s = [] \<or> \<not> is_word (hd s)"
  shows "\<exists>b1 b2. b1 \<noteq> [] \<and> b = b1 @ b2 \<and> rest m = b2 @ s"
proof -
  from matches_Plus_elem[OF assms(1)] obtain st1 where
    1: "st1 \<in> set (matches (Cls False word_ranges) st)" and
    2: "m \<in> set (star_iter (matches (Cls False word_ranges)) (length (rest st1)) st1)"
    unfolding w_def by blast
  from matches_Cls_elem[OF 1] obtain c where
    c: "rest st = c # rest st1" "is_word c" by (auto simp: is_word_def)
  from star_cls_elem[OF 2] obtain u where
    u: "rest st1 = u @ rest m" "\<forall>x \<in> set u. is_word x" by (auto simp: is_word_def)
  have "(c # u) @ rest m = b @ s" using c u assms(2) by simp
  moreover have "\<forall>x \<in> set (c # u). is_word x" using c u by simp
  ultimately obtain b2 where "b = (c # u) @ b2" "rest m = b2 @ s"
    using word_prefix_split[OF _ _ assms(3)] by blast
  then show ?thesis by blast
qed

lemma owner_led_no_match:
  assumes "owner_led r s" "\<forall>x \<in> set b. is_word x"
  shows "matches r \<lparr>prev = p, rest = b @ s, caps = cs\<rparr> = []"
proof -
  from assms(1) obtain k l r' where r: "r = Seq (Group k (Plus w)) (Seq (Lit l) (Seq WordB r'))"
    and l: "l \<noteq> []" "\<not> is_word (hd l)"
      "\<not> prefix l s \<or> is_word (last l) = word_opt (next_char (drop (length l) s))"
    and s: "s = [] \<or> \<not> is_word (hd s)"
    by (auto simp: owner_led_def split: regex.splits)
  let ?st = "\<lparr>prev = p, rest = b @ s, caps = cs\<rparr>"
  have "matches (Seq (Lit l) (Seq WordB r')) m = []"
    if m: "m \<in> set (matches (Group k (Plus w)) ?st)" for m
  proof -
    from matches_Group_elem[OF m] obtain m' where
      m': "m' \<in> set (matches (Plus w) ?st)" and rm: "rest m = rest m'"
      by blast
    from plus_word_elem[OF m' _ s, of b] obtain b1 b2 where
      b: "b = b1 @ b2" "rest m' = b2 @ s" by auto
    show ?thesis
    proof (cases b2)
      case Nil
      with rm b have "rest m = s" by simp
      with l(1,3) show ?thesis by (auto simp: word_opt_def)
    next
      case (Cons x xs)
      with b assms(2) have "is_word x" by simp
      with l Cons have "\<not> prefix l (b2 @ s)" by (cases l) auto
      with rm b show ?thesis by simp
    qed
  qed
  then show ?thesis unfolding r by (rule matches_Seq_empty)
qed

lemma owner_led_blind:
  assumes "owner_led r s'"
  shows "matches r \<lparr>prev = p, rest = s, caps = cs\<rparr> = matches r \<lparr>prev = q, rest = s, caps = cs\<rparr>"
proof -
  from assms obtain k r' where r: "r = Seq (Group k (Plus w)) r'"
    by (auto simp: owner_led_def split: regex.splits)
  have "matches (Plus w) \<lparr>prev = p, rest = s, caps = cs\<rparr>
      = matches (Plus w) \<lparr>prev = q, rest = s, caps = cs\<rparr>"
    by (cases s) (simp_all add: w_def)
  then have "matches (Group k (Plus w)) \<lparr>prev = p, rest = s, caps = cs\<rparr>
      = matches (Group k (Plus w)) \<lparr>prev = q, rest = s, caps = cs\<rparr>"
    by (simp only: matches.simps(10) mstate.simps)
  then show ?thesis unfolding r by (simp only: matches.simps(5))
qed

lemma passes_no_match:
  assumes "passes r s" "\<forall>x \<in> set b. is_word x" "b \<noteq> []"
  shows "matches r \<lparr>prev = p, rest = b @ s, caps = cs\<rparr> = []"
proof (cases "lit_led r")
  case True
  from assms(3) obtain c u where "b = c # u" by (cases b) auto
  with assms(2) lit_led_no_match[OF True, of c p "u @ s" cs] show ?thesis by simp
next
  case False
  with assms(1) have "owner_led r s" by (simp add: passes_def)
  then show ?thesis using assms(2) by (rule owner_led_no_match)
qed

lemma passes_blind:
  assumes "passes r s'"
  shows "matches r \<lparr>prev = p, rest = s, caps = cs\<rparr> = matches r \<lparr>prev = q, rest = s, caps = cs\<rparr>"
  using assms lit_led_blind owner_led_blind unfolding passes_def by blast

lemma sub_scan_blind:
  assumes "passes r s'"
  shows "sub_scan r t 0 p s = sub_scan r t 0 q s"
proof (cases s)
  case Nil
  then show ?thesis by simp
next
  case (Cons c cs)
  have "matches r \<lparr>prev = p, rest = c # cs, caps = []\<rparr> = matches r \<lparr>prev = q, rest = c # cs, caps = []\<rparr>"
    using assms by (rule passes_blind)
  with Cons show ?thesis by simp
qed

lemma sub_scan_identifier:
  assumes "passes r s" "\<forall>x \<in> set b. is_word x"
  shows "sub_scan r t 0 p (b @ s) = b @ sub_scan r t 0 None s"
  using assms(2)
proof (induction b arbitrary: p)
  case Nil
  show ?case using sub_scan_blind[OF assms(1)] by simp
next
  case (Cons c b)
  have "matches r \<lparr>prev = p, rest = (c # b) @ s, caps = []\<rparr> = []"
    using passes_no_match[OF assms(1), of "c # b"] Cons.prems by simp
  then have "sub_scan r t 0 p ((c # b) @ s) = c # sub_scan r t 0 (Some c) (b @ s)"
    by simp
  with Cons show ?case by simp
qed

lemma re_sub_identifier:
  "passes r s \<Longrightarrow> ident b \<Longrightarrow> re_sub r t (b @ s) = b @ re_sub r t s"
  unfolding re_sub_def ident_def by (simp add: sub_scan_identifier list_all_iff)

lemma apply_rules_Cons: "apply_rules ((r, t) # rs) s = apply_rules rs (re_sub r t s)"
  by (simp add: apply_rules_def)

lemma apply_rules_append: "apply_rules (rs @ rs') s = apply_rules rs' (apply_rules rs s)"
  by (simp add: apply_rules_def)

lemma apply_rules_identifier:
  "passes_all rs s \<Longrightarrow> ident b \<Longrightarrow> apply_rules rs (b @ s) = b @ apply_rules rs s"
proof (induction rs arbitrary: s)
  case Nil
  then show ?case by (simp add: apply_rules_def)
next
  case (Cons rt rs)
  obtain r t where rt: "rt = (r, t)" by (cases rt)
  from Cons.prems rt have p: "passes r s" and ps: "passes_all rs (re_sub r t s)" by simp_all
  have "apply_rules (rt # rs) (b @ s) = apply_rules rs (b @ re_sub r t s)"
    using re_sub_identifier[OF p Cons.prems(2)] rt by (simp add: apply_rules_Cons)
  also have "\<dots> = b @ apply_rules rs (re_sub r t s)"
    using Cons.IH[OF ps Cons.prems(2)] .
  finally show ?case using rt by (simp add: apply_rules_Cons)
qed

subsection \<open>Member accesses on an identifier\<close>

lemma field_accesses_pass:
  "passes_all field_access_rules ''.n''" "passes_all field_access_rules ''->n''"
  "passes_all field_access_rules ''.size''" "passes_all field_access_rules ''->s''"
  "passes_all field_access_rules ''.er''"
  by code_simp+

lemma field_accesses_eval:
  "fix_field_accesses ''.n'' = ''.count''" "fix_field_accesses ''->n'' = ''->count''"
  "fix_field_accesses ''.size'' = ''.size''" "fix_field_accesses ''->s'' = ''->is_negative''"
  "fix_field_accesses ''.er'' = ''.enum_rep''"
  by code_simp+

lemma fix_field_accesses_ident:
  "passes_all field_access_rules s \<Longrightarrow> ident b \<Longrightarrow>
   fix_field_accesses (b @ s) = b @ fix_field_accesses s"
  unfolding fix_field_accesses_def by (rule apply_rules_identifier)

subsection \<open>The group of word characters in front of a member access\<close>

lemma star_word_head:
  assumes "\<forall>x \<in> set b. is_word x" "s = [] \<or> \<not> is_word (hd s)" "length b \<le> n"
  shows "\<exists>ms. star_iter (matches w) n \<lparr>prev = Some x, rest = b @ s, caps = cs\<rparr>
           = \<lparr>prev = Some (last (x # b)), rest = s, caps = cs\<rparr> # ms"
  using assms(1,3)
proof (induction b arbitrary: x n)
  case Nil
  have none: "matches w \<lparr>prev = Some x, rest = s, caps = cs\<rparr> = []"
    using assms(2) by (cases s) (auto simp: w_def is_word_def)
  show ?case
  proof (cases n)
    case 0
    then show ?thesis by simp
  next
    case (Suc k)
    then show ?thesis using none by simp
  qed
next
  case (Cons y b)
  from Cons.prems obtain k where n: "n = Suc k" and k: "length b \<le> k"
    by (cases n) auto
  have y: "is_word y" and b: "\<forall>x \<in> set b. is_word x" using Cons.prems by simp_all
  have one: "matches w \<lparr>prev = Some x, rest = (y # b) @ s, caps = cs\<rparr>
      = [\<lparr>prev = Some y, rest = b @ s, caps = cs\<rparr>]"
    using y by (simp add: w_def is_word_def)
  from Cons.IH[OF b k, of y] obtain ms where
    ih: "star_iter (matches w) k \<lparr>prev = Some y, rest = b @ s, caps = cs\<rparr>
           = \<lparr>prev = Some (last (y # b)), rest = s, caps = cs\<rparr> # ms" by blast
  show ?case unfolding n star_iter.simps one using ih by simp
qed

lemma plus_word_head:
  assumes "\<forall>x \<in> set b. is_word x" "b \<noteq> []" "s = [] \<or> \<not> is_word (hd s)"
  shows "\<exists>ms. matches (Plus w) \<lparr>prev = p, rest = b @ s, caps = cs\<rparr>
           = \<lparr>prev = Some (last b), rest = s, caps = cs\<rparr> # ms"
proof -
  from assms(2) obtain x b' where b: "b = x # b'" by (cases b) auto
  with assms(1) have x: "is_word x" and b': "\<forall>x \<in> set b'. is_word x" by simp_all
  have one: "matches w \<lparr>prev = p, rest = b @ s, caps = cs\<rparr>
      = [\<lparr>prev = Some x, rest = b' @ s, caps = cs\<rparr>]"
    using x b by (simp add: w_def is_word_def)
  from star_word_head[OF b' assms(3), of "length (b' @ s)" x cs] obtain ms where
    "star_iter (matches w) (length (b' @ s)) \<lparr>prev = Some x, rest = b' @ s, caps = cs\<rparr>
       = \<lparr>prev = Some (last (x # b')), rest = s, caps = cs\<rparr> # ms" by auto
  then show ?thesis unfolding matches.simps(9) one using b by simp
qed

lemma owner_rule_fires:
  assumes "ident b" "b \<noteq> []" "l \<noteq> []" "\<not> is_word (hd l)" "is_word (last l)"
    and rs: "rs = [] \<or> rs = [NegLook w]"
  shows "re_sub (seqs (Group 1 (Plus w) # Lit l # WordB # rs)) [TGrp 1, TLit v] (b @ l) = b @ v"
proof -
  let ?r = "seqs (Group 1 (Plus w) # Lit l # WordB # rs)"
  let ?st = "\<lparr>prev = None, rest = b @ l, caps = []\<rparr>"
  have bw: "\<forall>x \<in> set b. is_word x" using assms(1) by (simp add: ident_def list_all_iff)
  have l0: "l = [] \<or> \<not> is_word (hd l)" using assms(4) by simp
  from plus_word_head[OF bw assms(2) l0, of None "[]"] obtain ms where
    pl: "matches (Plus w) ?st = \<lparr>prev = Some (last b), rest = l, caps = []\<rparr> # ms" by blast
  let ?g = "\<lparr>prev = Some (last b), rest = l, caps = [(1, b)]\<rparr>"
  have "\<exists>gs. matches (Group 1 (Plus w)) ?st = ?g # gs"
    unfolding matches.simps(10) pl by simp
  then obtain gs where gr: "matches (Group 1 (Plus w)) ?st = ?g # gs" ..
  let ?m = "\<lparr>prev = Some (last l), rest = [], caps = [(1, b)]\<rparr>"
  have tailm: "matches (seqs (Lit l # WordB # rs)) ?g = [?m]"
    using assms(3,5) rs by (auto simp: word_opt_def next_char_def w_def)
  have "\<exists>ns. matches ?r ?st = ?m # ns"
    unfolding matches_seqs_Cons[of "Group 1 (Plus w)"] gr using tailm by simp
  then obtain ns where m: "matches ?r ?st = ?m # ns" ..
  from assms(2) obtain c cs where bl: "b @ l = c # cs" by (cases b) auto
  have "sub_scan ?r [TGrp 1, TLit v] 0 None (c # cs)
      = b @ v @ sub_scan ?r [TGrp 1, TLit v] (length (c # cs) - 1) (Some c) cs"
    using m unfolding bl[symmetric] sub_scan.simps
    by (simp add: bl Let_def group_text_def)
  then show ?thesis unfolding re_sub_def bl by (simp add: sub_scan_skip_all)
qed

subsection \<open>The claims about member accesses\<close>

lemma all_fixes_pass:
  "passes_all (fixes_token @ fixes_lexer @ fixes_parser @ fixes_array_bounds @ fixes_thread_types
        @ fixes_lu @ fixes_gt @ fixes_rc @ fixes_generic @ fixes_location_chain @ fixes_standalone
        @ fixes_slice @ fixes_vector @ fixes_arena @ fixes_thread) s"
  if "s \<in> {''.n'', ''->l'', ''.er'', ''->f->s'', ''.error_count''}"
  using that by (elim insertE emptyE; hypsubst) code_simp+

lemma all_fixes_eval:
  "apply_all_fixes ''.n'' = ''.count''" "apply_all_fixes ''->l'' = ''->location''"
  "apply_all_fixes ''.er'' = ''.error_count''" "apply_all_fixes ''->f->s'' = ''->filename->string''"
  "apply_all_fixes ''.error_count'' = ''.error_count''"
  by code_simp+

lemma apply_all_fixes_ident:
  assumes "s \<in> {''.n'', ''->l'', ''.er'', ''->f->s'', ''.error_count''}" "ident b"
  shows "apply_all_fixes (b @ s) = b @ apply_all_fixes s"
  unfolding apply_all_fixes_def using all_fixes_pass[OF assms(1)] assms(2)
  by (rule apply_rules_identifier)

text \<open>
  C4. A member access is renamed by the spelling of the member alone. Whatever identifier
  stands in front, \<^verbatim>\<open>.n\<close> and \<^verbatim>\<open>->n\<close> become \<^verbatim>\<open>.count\<close> and \<^verbatim>\<open>->count\<close> and \<^verbatim>\<open>->l\<close> becomes
  \<^verbatim>\<open>->location\<close>; a member whose name no pattern spells, such as \<^verbatim>\<open>.size\<close>, is left as it is.
  Nothing about the base is looked up, and nothing is reported.
\<close>

theorem C4_renamed_by_spelling:
  "ident base \<Longrightarrow>
     fix_field_accesses (base @ ''.n'') = base @ ''.count''
   \<and> fix_field_accesses (base @ ''->n'') = base @ ''->count''
   \<and> fix_field_accesses (base @ ''.size'') = base @ ''.size''
   \<and> apply_all_fixes (base @ ''.n'') = base @ ''.count''
   \<and> apply_all_fixes (base @ ''->l'') = base @ ''->location''"
  by (simp add: fix_field_accesses_ident field_accesses_pass field_accesses_eval
      apply_all_fixes_ident all_fixes_eval)

theorem C4_renamed_by_spelling_witness:
  "fix_field_accesses ''x.n'' = ''x.count''
   \<and> fix_field_accesses ''x->n'' = ''x->count''
   \<and> fix_field_accesses ''x.size'' = ''x.size''
   \<and> apply_all_fixes ''x.n'' = ''x.count''
   \<and> apply_all_fixes ''x->l'' = ''x->location''"
proof -
  have "ident ''x''" by code_simp
  from C4_renamed_by_spelling[OF this] show ?thesis by simp
qed

text \<open>An access \<^verbatim>\<open>x.n\<close> on a variable that is declared nowhere is renamed all the same.\<close>

theorem C4_unresolved_passthrough_counterexample:
  "fix_field_accesses ''x.n'' \<noteq> ''x.n'' \<and> apply_all_fixes ''x.n'' \<noteq> ''x.n''"
  by code_simp

text \<open>
  C5. No rule table is loaded or checked, and no substitution fails.
  \<^verbatim>\<open>fix_field_accesses\<close> carries two differently targeted substitutions for each of \<^verbatim>\<open>->s\<close>,
  \<^verbatim>\<open>->n\<close> and \<^verbatim>\<open>.er\<close>; it applies them in the order of the source, and for every identifier
  in front the first of the two decides the result.
\<close>

theorem C5_first_rule_wins:
  "ident base \<Longrightarrow>
     fix_field_accesses (base @ ''->s'') = base @ ''->is_negative''
   \<and> fix_field_accesses (base @ ''->n'') = base @ ''->count''
   \<and> fix_field_accesses (base @ ''.er'') = base @ ''.enum_rep''"
  by (simp add: fix_field_accesses_ident field_accesses_pass field_accesses_eval)

theorem C5_first_rule_wins_witness:
  "fix_field_accesses ''z->s'' = ''z->is_negative''
   \<and> fix_field_accesses ''z->n'' = ''z->count''
   \<and> fix_field_accesses ''z.er'' = ''z.enum_rep''"
proof -
  have "ident ''z''" by code_simp
  from C5_first_rule_wins[OF this] show ?thesis by simp
qed

text \<open>Both substitutions for \<^verbatim>\<open>->s\<close> are in the chain, with the same pattern, and the function
  returns a result.\<close>

theorem C5_conflicting_rules_counterexample:
  "field_arrow ''s'' ''is_negative'' \<in> set field_access_rules
   \<and> field_arrow ''s'' ''string'' \<in> set field_access_rules
   \<and> fst (field_arrow ''s'' ''is_negative'') = fst (field_arrow ''s'' ''string'')
   \<and> fix_field_accesses ''z->s'' = ''z->is_negative''"
  by code_simp

subsection \<open>Chained accesses and the order of the blocks\<close>

lemma location_chain_rules:
  "fixes_location_chain =
     [(seqs [Group 1 (Plus w), Lit ''.l.l'', WordB], [TGrp 1, TLit ''.location.line'']),
      (seqs [Group 1 (Plus w), Lit ''.l.c'', WordB], [TGrp 1, TLit ''.location.column'']),
      (seqs [Group 1 (Plus w), Lit ''.l.f'', WordB], [TGrp 1, TLit ''.location.filename''])]"
  by (simp add: fixes_location_chain_def)

lemma before_chain_pass:
  "passes_all (fixes_token @ fixes_lexer @ fixes_parser @ fixes_array_bounds @ fixes_thread_types
        @ fixes_lu @ fixes_gt @ fixes_rc @ fixes_generic) ''.l.l''"
  by code_simp

lemma before_chain_eval:
  "apply_rules (fixes_token @ fixes_lexer @ fixes_parser @ fixes_array_bounds @ fixes_thread_types
        @ fixes_lu @ fixes_gt @ fixes_rc @ fixes_generic) ''.l.l'' = ''.l.l''"
  by code_simp

lemma after_chain_pass:
  "passes_all (tl fixes_location_chain @ fixes_standalone
        @ fixes_slice @ fixes_vector @ fixes_arena @ fixes_thread) ''.location.line''"
  by code_simp

lemma after_chain_eval:
  "apply_rules (tl fixes_location_chain @ fixes_standalone
        @ fixes_slice @ fixes_vector @ fixes_arena @ fixes_thread) ''.location.line''
     = ''.location.line''"
  by code_simp

lemma dot_l_l_chars: "\<not> is_word CHR ''.''" "is_word CHR ''l''"
  by code_simp+

lemma apply_all_fixes_chain:
  assumes "ident b" "b \<noteq> []"
  shows "apply_all_fixes (b @ ''.l.l'') = b @ ''.location.line''"
proof -
  let ?pre = "fixes_token @ fixes_lexer @ fixes_parser @ fixes_array_bounds @ fixes_thread_types
        @ fixes_lu @ fixes_gt @ fixes_rc @ fixes_generic"
  let ?post = "tl fixes_location_chain @ fixes_standalone
        @ fixes_slice @ fixes_vector @ fixes_arena @ fixes_thread"
  let ?c = "(seqs [Group 1 (Plus w), Lit ''.l.l'', WordB], [TGrp 1, TLit ''.location.line''])"
  have split: "fixes_location_chain = ?c # tl fixes_location_chain"
    by (simp add: location_chain_rules)
  have "apply_all_fixes (b @ ''.l.l'') = apply_rules (?pre @ ?c # ?post) (b @ ''.l.l'')"
    unfolding apply_all_fixes_def by (subst split) simp
  also have "\<dots> = apply_rules ?post (re_sub (fst ?c) (snd ?c) (apply_rules ?pre (b @ ''.l.l'')))"
    by (simp only: apply_rules_append apply_rules_Cons fst_conv snd_conv)
  also have "apply_rules ?pre (b @ ''.l.l'') = b @ ''.l.l''"
    using apply_rules_identifier[OF before_chain_pass assms(1)] before_chain_eval by simp
  also have "re_sub (fst ?c) (snd ?c) (b @ ''.l.l'') = b @ ''.location.line''"
    unfolding fst_conv snd_conv
    by (rule owner_rule_fires[OF assms, where rs = "[]"]) (simp_all add: dot_l_l_chars)
  also have "apply_rules ?post (b @ ''.location.line'') = b @ ''.location.line''"
    using apply_rules_identifier[OF after_chain_pass assms(1)] after_chain_eval by simp
  finally show ?thesis .
qed

lemma rc_first_pass:
  "passes_all (fixes_token @ fixes_lexer @ fixes_rc @ fixes_parser @ fixes_array_bounds
        @ fixes_thread_types @ fixes_lu @ fixes_gt @ fixes_generic @ fixes_location_chain
        @ fixes_standalone @ fixes_slice @ fixes_vector @ fixes_arena @ fixes_thread) ''.er''"
  by code_simp

lemma rc_first_eval: "apply_all_fixes_rc_first ''.er'' = ''.enum_rep''"
  by code_simp

lemma standalone_first_pass:
  "passes_all (fixes_token @ fixes_lexer @ fixes_parser @ fixes_array_bounds @ fixes_thread_types
        @ fixes_lu @ fixes_gt @ fixes_rc @ fixes_generic @ fixes_standalone
        @ fixes_location_chain @ fixes_slice @ fixes_vector @ fixes_arena @ fixes_thread) ''.l.l''"
  by code_simp

lemma standalone_first_eval:
  "apply_all_fixes_standalone_first ''.l.l'' = ''.location.location''"
  by code_simp

lemma all_fixes_line_pass:
  "passes_all (fixes_token @ fixes_lexer @ fixes_parser @ fixes_array_bounds @ fixes_thread_types
        @ fixes_lu @ fixes_gt @ fixes_rc @ fixes_generic @ fixes_location_chain @ fixes_standalone
        @ fixes_slice @ fixes_vector @ fixes_arena @ fixes_thread) ''.location.line''"
  by code_simp

lemma all_fixes_line_eval:
  "apply_rules (fixes_token @ fixes_lexer @ fixes_parser @ fixes_array_bounds @ fixes_thread_types
        @ fixes_lu @ fixes_gt @ fixes_rc @ fixes_generic @ fixes_location_chain @ fixes_standalone
        @ fixes_slice @ fixes_vector @ fixes_arena @ fixes_thread) ''.location.line''
     = ''.location.line''"
  by code_simp

text \<open>
  C6. The result depends on the order of the blocks of substitutions. In the order of the
  source, for every identifier \<open>x\<close>, \<^verbatim>\<open>x.er\<close> becomes \<^verbatim>\<open>x.error_count\<close> and \<^verbatim>\<open>x.l.l\<close> becomes
  \<^verbatim>\<open>x.location.line\<close>; with the RC block before the Parser block \<^verbatim>\<open>x.er\<close> becomes
  \<^verbatim>\<open>x.enum_rep\<close>, and with the standalone block before the \<^verbatim>\<open>.l.l\<close> block \<^verbatim>\<open>x.l.l\<close> becomes
  \<^verbatim>\<open>x.location.location\<close>. On these inputs a second application of \<^verbatim>\<open>apply_all_fixes\<close>
  changes nothing.
\<close>

theorem C6_order_of_blocks_matters:
  "ident base \<Longrightarrow> base \<noteq> [] \<Longrightarrow>
     apply_all_fixes (base @ ''.er'') = base @ ''.error_count''
   \<and> apply_all_fixes_rc_first (base @ ''.er'') = base @ ''.enum_rep''
   \<and> apply_all_fixes (base @ ''.l.l'') = base @ ''.location.line''
   \<and> apply_all_fixes_standalone_first (base @ ''.l.l'') = base @ ''.location.location''
   \<and> apply_all_fixes (apply_all_fixes (base @ ''.er'')) = apply_all_fixes (base @ ''.er'')
   \<and> apply_all_fixes (apply_all_fixes (base @ ''.l.l'')) = apply_all_fixes (base @ ''.l.l'')"
proof -
  assume b: "ident base" "base \<noteq> []"
  have 1: "apply_all_fixes (base @ ''.er'') = base @ ''.error_count''"
    using b by (simp add: apply_all_fixes_ident all_fixes_eval)
  have 2: "apply_all_fixes_rc_first (base @ ''.er'') = base @ ''.enum_rep''"
    using apply_rules_identifier[OF rc_first_pass b(1)] rc_first_eval
    by (simp add: apply_all_fixes_rc_first_def)
  have 3: "apply_all_fixes (base @ ''.l.l'') = base @ ''.location.line''"
    using b by (rule apply_all_fixes_chain)
  have 4: "apply_all_fixes_standalone_first (base @ ''.l.l'') = base @ ''.location.location''"
    using apply_rules_identifier[OF standalone_first_pass b(1)] standalone_first_eval
    by (simp add: apply_all_fixes_standalone_first_def)
  have 5: "apply_all_fixes (base @ ''.error_count'') = base @ ''.error_count''"
    using b by (simp add: apply_all_fixes_ident all_fixes_eval)
  have 6: "apply_all_fixes (base @ ''.location.line'') = base @ ''.location.line''"
    using apply_rules_identifier[OF all_fixes_line_pass b(1)] all_fixes_line_eval
    by (simp add: apply_all_fixes_def)
  show ?thesis using 1 2 3 4 5 6 by simp
qed

theorem C6_order_of_blocks_witness:
  "apply_all_fixes ''p.er'' = ''p.error_count''
   \<and> apply_all_fixes_rc_first ''p.er'' = ''p.enum_rep''
   \<and> apply_all_fixes ''tok.l.l'' = ''tok.location.line''
   \<and> apply_all_fixes_standalone_first ''tok.l.l'' = ''tok.location.location''"
proof -
  have p: "ident ''p''" "ident ''tok''" by code_simp+
  from C6_order_of_blocks_matters[OF p(1)] C6_order_of_blocks_matters[OF p(2)]
  show ?thesis by simp
qed

text \<open>The same blocks in another order give another result.\<close>

theorem C6_order_independence_counterexample:
  "apply_all_fixes_rc_first ''p.er'' \<noteq> apply_all_fixes ''p.er''"
  by code_simp

subsection \<open>The chained-access claim\<close>

text \<open>
  C7. A chain of member accesses is rewritten link by link from the spelling of each member,
  and by the fixed two-level patterns of the scripts: for every identifier \<open>x\<close>, \<^verbatim>\<open>x.l.l\<close>
  becomes \<^verbatim>\<open>x.location.line\<close> and \<^verbatim>\<open>x->f->s\<close> becomes \<^verbatim>\<open>x->filename->string\<close>;
  \<^verbatim>\<open>fix_source_location\<close> turns \<^verbatim>\<open>KW[i].keyword.s\<close> into \<^verbatim>\<open>KW[i].keyword.string\<close>.
\<close>

theorem C7_chained_access_by_spelling:
  "ident base \<Longrightarrow> base \<noteq> [] \<Longrightarrow>
     apply_all_fixes (base @ ''.l.l'') = base @ ''.location.line''
   \<and> apply_all_fixes (base @ ''->f->s'') = base @ ''->filename->string''
   \<and> fix_source_location ''KW[i].keyword.s'' = ''KW[i].keyword.string''"
proof -
  assume b: "ident base" "base \<noteq> []"
  have 1: "apply_all_fixes (base @ ''.l.l'') = base @ ''.location.line''"
    using b by (rule apply_all_fixes_chain)
  have 2: "apply_all_fixes (base @ ''->f->s'') = base @ ''->filename->string''"
    using b by (simp add: apply_all_fixes_ident all_fixes_eval)
  have 3: "fix_source_location ''KW[i].keyword.s'' = ''KW[i].keyword.string''"
    by code_simp
  show ?thesis using 1 2 3 by simp
qed

theorem C7_chained_access_witness:
  "apply_all_fixes ''a.l.l'' = ''a.location.line''
   \<and> apply_all_fixes ''a->f->s'' = ''a->filename->string''"
proof -
  have "ident ''a''" by code_simp
  from C7_chained_access_by_spelling[OF this] show ?thesis by simp
qed

text \<open>No script produces \<^verbatim>\<open>a->field->size\<close> from \<^verbatim>\<open>a->f->s\<close>.\<close>

theorem C7_chained_access_counterexample:
  "apply_all_fixes ''a->f->s'' \<noteq> ''a->field->size''
   \<and> fix_source_location ''a->f->s'' \<noteq> ''a->field->size''"
  by code_simp

subsection \<open>The member n of two variables\<close>

lemma bigint_rules_split:
  "bigint_rules = take 5 bigint_rules
     @ (seqs [Group 1 (Plus w), Lit ''.n'', WordB, NegLook w], [TGrp 1, TLit ''.count''])
     # drop 6 bigint_rules"
  by (simp add: bigint_rules_def owned_field_def)

lemma bigint_before_pass: "passes_all (take 5 bigint_rules) ''.n''"
  by code_simp

lemma bigint_before_eval: "apply_rules (take 5 bigint_rules) ''.n'' = ''.n''"
  by code_simp

lemma bigint_after_pass: "passes_all (drop 6 bigint_rules) ''.count''"
  by code_simp

lemma bigint_after_eval: "apply_rules (drop 6 bigint_rules) ''.count'' = ''.count''"
  by code_simp

lemma dot_n_chars: "\<not> is_word CHR ''.''" "is_word CHR ''n''"
  by code_simp+

lemma fix_bigint_line_member:
  assumes "ident b" "b \<noteq> []"
  shows "fix_bigint_line (b @ ''.n'') = b @ ''.count''"
proof -
  let ?c = "(seqs [Group 1 (Plus w), Lit ''.n'', WordB, NegLook w], [TGrp 1, TLit ''.count''])"
  have "fix_bigint_line (b @ ''.n'')
      = apply_rules (take 5 bigint_rules @ ?c # drop 6 bigint_rules) (b @ ''.n'')"
    unfolding fix_bigint_line_def by (subst bigint_rules_split) simp
  also have "\<dots> = apply_rules (drop 6 bigint_rules)
      (re_sub (fst ?c) (snd ?c) (apply_rules (take 5 bigint_rules) (b @ ''.n'')))"
    by (simp only: apply_rules_append apply_rules_Cons fst_conv snd_conv)
  also have "apply_rules (take 5 bigint_rules) (b @ ''.n'') = b @ ''.n''"
    using apply_rules_identifier[OF bigint_before_pass assms(1)] bigint_before_eval by simp
  also have "re_sub (fst ?c) (snd ?c) (b @ ''.n'') = b @ ''.count''"
    unfolding fst_conv snd_conv
    by (rule owner_rule_fires[OF assms, where rs = "[NegLook w]"]) (simp_all add: dot_n_chars)
  also have "apply_rules (drop 6 bigint_rules) (b @ ''.count'') = b @ ''.count''"
    using apply_rules_identifier[OF bigint_after_pass assms(1)] bigint_after_eval by simp
  finally show ?thesis .
qed

text \<open>
  C2. The member \<^verbatim>\<open>n\<close> is renamed by spelling, not by the type of the variable. The bigint
  substitutions turn \<^verbatim>\<open>.n\<close> into \<^verbatim>\<open>.count\<close> behind every identifier, so
  \<^verbatim>\<open>p.n = 1; b.n = 2;\<close> becomes \<^verbatim>\<open>p.count = 1; b.count = 2;\<close>; \<^verbatim>\<open>fix_string_slice_fields\<close> renames
  \<^verbatim>\<open>.n\<close> behind the variable names \<^verbatim>\<open>a\<close>, \<^verbatim>\<open>b\<close> and \<^verbatim>\<open>s\<close> only, and yields
  \<^verbatim>\<open>p.n = 1; b.length = 2;\<close>.
\<close>

theorem C2_member_n_by_spelling:
  "ident base \<Longrightarrow> base \<noteq> [] \<Longrightarrow>
     fix_bigint_line (base @ ''.n'') = base @ ''.count''
   \<and> fix_bigint_line ''p.n = 1; b.n = 2;'' = ''p.count = 1; b.count = 2;''
   \<and> fix_string_slice_fields ''p.n = 1; b.n = 2;'' = ''p.n = 1; b.length = 2;''"
proof -
  assume b: "ident base" "base \<noteq> []"
  have 1: "fix_bigint_line (base @ ''.n'') = base @ ''.count''"
    using b by (rule fix_bigint_line_member)
  have 2: "fix_bigint_line ''p.n = 1; b.n = 2;'' = ''p.count = 1; b.count = 2;''"
    by code_simp
  have 3: "fix_string_slice_fields ''p.n = 1; b.n = 2;'' = ''p.n = 1; b.length = 2;''"
    by code_simp
  show ?thesis using 1 2 3 by simp
qed

theorem C2_member_n_witness:
  "fix_bigint_line ''p.n'' = ''p.count'' \<and> fix_bigint_line ''b.n'' = ''b.count''"
proof -
  have p: "ident ''p''" "ident ''b''" by code_simp+
  from C2_member_n_by_spelling[OF p(1)] C2_member_n_by_spelling[OF p(2)]
  show ?thesis by simp
qed

text \<open>Neither script, nor the bigint script on a one-line file, yields
  \<^verbatim>\<open>p.count = 1; b.size = 2;\<close>.\<close>

theorem C2_type_disambiguation_counterexample:
  "fix_bigint_line ''p.n = 1; b.n = 2;'' \<noteq> ''p.count = 1; b.size = 2;''
   \<and> fix_string_slice_fields ''p.n = 1; b.n = 2;'' \<noteq> ''p.count = 1; b.size = 2;''
   \<and> fix_bigint_fields ''p.n = 1; b.n = 2;'' \<noteq> ''p.count = 1; b.size = 2;''"
  by code_simp

end
